theory Spec2Isabelle
  imports Main
begin

section \<open>The crawler of \<open>src/crawl-http.js\<close>\<close>

text \<open>
  \<open>crawl(absURL, opts, internals)\<close> fetches a directory listing, extracts its links and
  follows every link that ends in a slash. It is written with promises; every recursive
  call is awaited before the loop goes on, so the run is sequential and is modelled by
  explicit state passing.

  The modules \<open>node-fetch\<close>, \<open>cheerio\<close>, \<open>url\<close> and \<open>path\<close> are not code of the
  repository. They are parameters of the model (the record \<open>env\<close>): the general
  theorems hold for every behaviour of these modules, and only the closed scenarios
  instantiate them.
\<close>

subsection \<open>Library values\<close>

text \<open>
  The fields of a WHATWG \<open>URL\<close> object that \<open>crawl\<close> reads: \<open>url.format(urlObj)\<close>
  of such an object is its \<open>href\<close>; \<open>urlObj.host\<close>; \<open>urlObj.pathname\<close>.
\<close>

record url_obj =
  url_href :: string
  url_host :: string
  url_pathname :: string

text \<open>
  What \<open>fetch(absURL)\<close> settles to. The promise is rejected (\<open>Rejected\<close>: a network
  error), or it is fulfilled with a response, whatever its HTTP status. \<open>res.text()\<close> of
  a response is the body, or is rejected itself (\<open>None\<close>).
\<close>

datatype fetch_result = Rejected | Response nat "string option"

text \<open>An \<open>a\<close> element as cheerio hands it out: \<open>$el.text()\<close> and \<open>$el.attr('href')\<close>,
  which is \<open>undefined\<close> (\<open>None\<close>) when the element has no such attribute.\<close>

record anchor =
  el_text :: string
  el_href :: "string option"

text \<open>
  The library functions. \<open>fetch\<close> also receives the URLs requested so far, so that a
  server may answer the same URL differently on a later request. A constructor of
  \<open>url.URL\<close> that throws is \<open>None\<close>.
\<close>

record env =
  fetch :: "string list \<Rightarrow> string \<Rightarrow> fetch_result"
  new_URL :: "string \<Rightarrow> url_obj option"
  new_URL_base :: "string \<Rightarrow> string \<Rightarrow> url_obj option"
  cheerio_a :: "string \<Rightarrow> anchor list"
  path_relative :: "string \<Rightarrow> string \<Rightarrow> string"
  path_isAbsolute :: "string \<Rightarrow> bool"
  path_extname :: "string \<Rightarrow> string"

subsection \<open>Options, objects and the store\<close>

text \<open>The destructured \<open>opts\<close> (lines 16 to 28). A regular expression is the predicate
  \<open>filterRegex.test\<close>; \<open>null\<close> is \<open>None\<close>. Logging is not modelled.\<close>

record opts =
  maxAttempts :: nat
  keepSeparateHosts :: bool
  stayInSameDirectory :: bool
  keepAnyFileType :: bool
  fileTypes :: "string list"
  filterRegex :: "(string \<Rightarrow> bool) option"

definition default_opts :: opts where
  "default_opts =
     \<lparr> maxAttempts = 5, keepSeparateHosts = False, stayInSameDirectory = True,
       keepAnyFileType = False,
       fileTypes = [''wav'', ''ogg'', ''oga'', ''mp3'', ''mp4'', ''m4a'', ''mov'', ''mpga'', ''mod''],
       filterRegex = None \<rparr>"

text \<open>
  \<open>internals\<close> is a JavaScript object, passed by reference, whose field \<open>allURLs\<close> holds
  a reference to an array. Both live in a store: objects and arrays at addresses, with
  the next free address of each kind. An absent field is \<open>None\<close>.
\<close>

type_synonym addr = nat

record internals =
  attempts :: "nat option"
  allURLs :: "addr option"

text \<open>
  The trace records, in order, what a run does: every entry into \<open>crawl\<close> with the
  values of \<open>internals.attempts\<close> and \<open>internals.allURLs\<close> after lines 30 and 35, every
  call of \<open>fetch\<close>, and every \<open>items.push\<close> with the link's resolved URL.
\<close>

datatype event =
    Invoke string nat addr
  | Fetch string
  | PushDir string
  | PushFile string

record store =
  objs :: "addr \<Rightarrow> internals"
  next_obj :: addr
  arrs :: "addr \<Rightarrow> string list"
  next_arr :: addr
  trace :: "event list"

definition emit :: "event \<Rightarrow> store \<Rightarrow> store" where
  "emit e st = st\<lparr>trace := trace st @ [e]\<rparr>"

fun requests :: "event list \<Rightarrow> string list" where
  "requests [] = []"
| "requests (Fetch u # es) = u # requests es"
| "requests (_ # es) = requests es"

text \<open>Line 30: \<open>if (!internals.attempts) internals.attempts = 0\<close>. Both \<open>undefined\<close> and
  \<open>0\<close> are falsy.\<close>

definition init_attempts :: "addr \<Rightarrow> store \<Rightarrow> store" where
  "init_attempts i st =
     (case attempts (objs st i) of
        Some (Suc k) \<Rightarrow> st
      | _ \<Rightarrow> st\<lparr>objs := (objs st)(i := (objs st i)\<lparr>attempts := Some 0\<rparr>)\<rparr>)"

text \<open>Line 35: \<open>if (!internals.allURLs) internals.allURLs = []\<close>. An array, even an
  empty one, is truthy; the literal allocates a new array.\<close>

definition init_allURLs :: "addr \<Rightarrow> store \<Rightarrow> store" where
  "init_allURLs i st =
     (case allURLs (objs st i) of
        Some a \<Rightarrow> st
      | None \<Rightarrow>
          st\<lparr>objs := (objs st)(i := (objs st i)\<lparr>allURLs := Some (next_arr st)\<rparr>),
             arrs := (arrs st)(next_arr st := []),
             next_arr := Suc (next_arr st)\<rparr>)"

text \<open>Reading the two fields once lines 30 and 35 have run.\<close>

definition the_attempts :: "store \<Rightarrow> addr \<Rightarrow> nat" where
  "the_attempts st i = (case attempts (objs st i) of Some k \<Rightarrow> k | None \<Rightarrow> 0)"

definition the_allURLs :: "store \<Rightarrow> addr \<Rightarrow> addr" where
  "the_allURLs st i = (case allURLs (objs st i) of Some a \<Rightarrow> a | None \<Rightarrow> next_arr st)"

text \<open>\<open>internals.allURLs.push(linkURL)\<close>.\<close>

definition push_URL :: "addr \<Rightarrow> string \<Rightarrow> store \<Rightarrow> store" where
  "push_URL a u st = st\<lparr>arrs := (arrs st)(a := arrs st a @ [u])\<rparr>"

text \<open>\<open>Object.assign({}, internals)\<close> and \<open>Object.assign({}, internals, {attempts: k})\<close>:
  a new object with the fields of \<open>internals\<close> (the array reference is copied, not the
  array), and the \<open>attempts\<close> field overwritten when the third argument gives one.\<close>

definition object_assign :: "addr \<Rightarrow> nat option \<Rightarrow> store \<Rightarrow> addr \<times> store" where
  "object_assign i upd st =
     (let copy = (case upd of None \<Rightarrow> objs st i | Some k \<Rightarrow> (objs st i)\<lparr>attempts := Some k\<rparr>)
      in (next_obj st,
          st\<lparr>objs := (objs st)(next_obj st := copy), next_obj := Suc (next_obj st)\<rparr>))"

subsection \<open>Strings\<close>

definition endsWith_slash :: "string \<Rightarrow> bool" where
  "endsWith_slash s = (s \<noteq> [] \<and> last s = CHR ''/'')"

definition startsWith_dotdot :: "string \<Rightarrow> bool" where
  "startsWith_dotdot s = (take 2 s = ''..'')"

text \<open>
  A string is its sequence of UTF-8 bytes. The white space and line terminators that
  \<open>String.prototype.trim\<close> removes: U+0009 to U+000D, U+0020, U+00A0, U+1680, U+2000
  to U+200A, U+2028, U+2029, U+202F, U+205F, U+3000 and U+FEFF, each as its bytes.
\<close>

definition white_space :: "string list" where
  "white_space =
     [[CHR 0x09], [CHR 0x0A], [CHR 0x0B], [CHR 0x0C], [CHR 0x0D], [CHR 0x20],
      [CHR 0xC2, CHR 0xA0],
      [CHR 0xE1, CHR 0x9A, CHR 0x80],
      [CHR 0xE2, CHR 0x80, CHR 0x80], [CHR 0xE2, CHR 0x80, CHR 0x81],
      [CHR 0xE2, CHR 0x80, CHR 0x82], [CHR 0xE2, CHR 0x80, CHR 0x83],
      [CHR 0xE2, CHR 0x80, CHR 0x84], [CHR 0xE2, CHR 0x80, CHR 0x85],
      [CHR 0xE2, CHR 0x80, CHR 0x86], [CHR 0xE2, CHR 0x80, CHR 0x87],
      [CHR 0xE2, CHR 0x80, CHR 0x88], [CHR 0xE2, CHR 0x80, CHR 0x89],
      [CHR 0xE2, CHR 0x80, CHR 0x8A],
      [CHR 0xE2, CHR 0x80, CHR 0xA8], [CHR 0xE2, CHR 0x80, CHR 0xA9],
      [CHR 0xE2, CHR 0x80, CHR 0xAF],
      [CHR 0xE2, CHR 0x81, CHR 0x9F],
      [CHR 0xE3, CHR 0x80, CHR 0x80],
      [CHR 0xEF, CHR 0xBB, CHR 0xBF]]"

text \<open>The string without the first of the given words that it starts with, if any.\<close>

fun strip_first :: "string list \<Rightarrow> string \<Rightarrow> string option" where
  "strip_first [] s = None"
| "strip_first (w # ws) s =
     (if w \<noteq> [] \<and> take (length w) s = w then Some (drop (length w) s)
      else strip_first ws s)"

text \<open>Removing such words from the start, at most \<open>n\<close> times.\<close>

fun strip_all :: "nat \<Rightarrow> string list \<Rightarrow> string \<Rightarrow> string" where
  "strip_all 0 ws s = s"
| "strip_all (Suc n) ws s =
     (case strip_first ws s of None \<Rightarrow> s | Some rest \<Rightarrow> strip_all n ws rest)"

text \<open>
  \<open>String.prototype.trim\<close>: the white space at the start is removed, then that at the
  end (as the reversed words at the start of the reversed string). Each removal takes
  at least one byte, so as many removals as the string has bytes are enough.
\<close>

definition trimStart :: "string \<Rightarrow> string" where
  "trimStart s = strip_all (length s) white_space s"

definition trimEnd :: "string \<Rightarrow> string" where
  "trimEnd s = rev (strip_all (length s) (map rev white_space) (rev s))"

definition trim :: "string \<Rightarrow> string" where
  "trim s = trimEnd (trimStart s)"

text \<open>Lines 58 to 62: the label of a link.\<close>

definition link_name :: "string \<Rightarrow> string" where
  "link_name name = trim (if endsWith_slash name then butlast name else name)"

text \<open>The URL constructor converts its first argument to a string; \<open>undefined\<close>
  becomes the text \<open>undefined\<close>.\<close>

definition js_string :: "string option \<Rightarrow> string" where
  "js_string h = (case h of None \<Rightarrow> ''undefined'' | Some s \<Rightarrow> s)"

subsection \<open>The link extractor\<close>

text \<open>\<open>getHTMLLinks\<close> (lines 153 to 161): the pair \<open>[$el.text(), $el.attr('href')]\<close> of
  every \<open>a\<close> element.\<close>

definition getHTMLLinks :: "env \<Rightarrow> string \<Rightarrow> (string \<times> string option) list" where
  "getHTMLLinks env text = map (\<lambda>el. (el_text el, el_href el)) (cheerio_a env text)"

subsection \<open>Results\<close>

text \<open>
  An entry of \<open>items\<close> is \<open>{name, downloaderArg}\<close> or \<open>{name, items}\<close>. The \<open>items\<close> of
  a directory entry come from destructuring what the child's promise resolved to, and
  are \<open>undefined\<close> (\<open>None\<close>) when that value has no such property.
\<close>

datatype item =
    File string string
  | Dir string "item list option"

text \<open>What the promise of \<open>crawl\<close> resolves to: \<open>{items}\<close> (line 119) or the bare array
  \<open>[]\<close> (line 146).\<close>

datatype crawl_value = Items "item list" | EmptyArray

text \<open>The parameter pattern \<open>({ items })\<close> of line 99.\<close>

fun destructure_items :: "crawl_value \<Rightarrow> item list option" where
  "destructure_items (Items xs) = Some xs"
| "destructure_items EmptyArray = None"

text \<open>
  What is thrown: the string of line 139, the \<open>TypeError\<close> of a URL constructor, the
  \<open>TypeError\<close> of \<open>href.endsWith\<close> on \<open>undefined\<close>, and the rejection of \<open>res.text()\<close>.
\<close>

datatype error = FAILED_DOWNLOAD | ERR_INVALID_URL | TypeError_undefined | BodyError

text \<open>The handler of \<open>.catch\<close> (lines 143 to 150).\<close>

fun catch_handler :: "error + crawl_value \<Rightarrow> error + crawl_value" where
  "catch_handler (Inl FAILED_DOWNLOAD) = Inr EmptyArray"
| "catch_handler r = r"

subsection \<open>The filters of the loop body\<close>

text \<open>Line 74.\<close>

definition failed_regex :: "opts \<Rightarrow> string \<Rightarrow> bool" where
  "failed_regex os linkURL =
     (case filterRegex os of None \<Rightarrow> False | Some re \<Rightarrow> \<not> re linkURL)"

text \<open>Line 79.\<close>

definition inconsistent_host :: "opts \<Rightarrow> url_obj \<Rightarrow> url_obj \<Rightarrow> bool" where
  "inconsistent_host os urlObj absURLObj =
     (\<not> keepSeparateHosts os \<and> url_host urlObj \<noteq> url_host absURLObj)"

text \<open>Lines 84 to 90.\<close>

definition outside_parent :: "env \<Rightarrow> opts \<Rightarrow> url_obj \<Rightarrow> url_obj \<Rightarrow> bool" where
  "outside_parent e os urlObj absURLObj =
     (stayInSameDirectory os \<and>
      (let relative = path_relative e (url_pathname absURLObj) (url_pathname urlObj)
       in startsWith_dotdot relative \<or> path_isAbsolute e relative))"

text \<open>Lines 104 to 109.\<close>

definition bad_extension :: "env \<Rightarrow> opts \<Rightarrow> string \<Rightarrow> bool" where
  "bad_extension e os h =
     (let extensions = map (\<lambda>t. ''.'' @ t) (fileTypes os)
      in \<not> keepAnyFileType os \<and> path_extname e h \<notin> set extensions)"

subsection \<open>crawl\<close>

text \<open>
  \<open>crawl n\<close> is \<open>crawl\<close> with at most \<open>n\<close> nested calls (a retry and the crawl of a
  subdirectory are both nested calls); \<open>None\<close> means that \<open>n\<close> did not suffice.
  \<open>process_links\<close> is the \<open>for\<close> loop of lines 52 to 117 over the remaining links, with
  the local \<open>items\<close>. A result \<open>Inl e\<close> is a rejected promise (or, at line 43, an
  exception thrown before any promise exists).
\<close>

function
  crawl :: "nat \<Rightarrow> env \<Rightarrow> opts \<Rightarrow> string \<Rightarrow> addr \<Rightarrow> store
      \<Rightarrow> ((error + crawl_value) \<times> store) option"
and
  process_links :: "nat \<Rightarrow> env \<Rightarrow> opts \<Rightarrow> string \<Rightarrow> url_obj \<Rightarrow> addr
      \<Rightarrow> (string \<times> string option) list \<Rightarrow> item list \<Rightarrow> store
      \<Rightarrow> ((error + item list) \<times> store) option"
where
  "crawl 0 e os absURL i st = None"
| "crawl (Suc n) e os absURL i st =
     (let st1 = init_allURLs i (init_attempts i st);
          st2 = emit (Invoke absURL (the_attempts st1 i) (the_allURLs st1 i)) st1
      in case new_URL e absURL of
           None \<Rightarrow> Some (Inl ERR_INVALID_URL, st2)
         | Some absURLObj \<Rightarrow>
             (let st3 = emit (Fetch absURL) st2
              in case fetch e (requests (trace st2)) absURL of
                   Response status body \<Rightarrow>
                     (case body of
                        None \<Rightarrow> Some (catch_handler (Inl BodyError), st3)
                      | Some text \<Rightarrow>
                          (case process_links n e os absURL absURLObj i
                                  (getHTMLLinks e text) [] st3 of
                             None \<Rightarrow> None
                           | Some (Inl err, st4) \<Rightarrow> Some (catch_handler (Inl err), st4)
                           | Some (Inr items, st4) \<Rightarrow>
                               Some (catch_handler (Inr (Items items)), st4)))
                 | Rejected \<Rightarrow>
                     (if the_attempts st3 i < maxAttempts os
                      then (case object_assign i (Some (the_attempts st3 i + 1)) st3 of
                              (copy, st4) \<Rightarrow>
                                (case crawl n e os absURL copy st4 of
                                   None \<Rightarrow> None
                                 | Some (r, st5) \<Rightarrow> Some (catch_handler r, st5)))
                      else Some (catch_handler (Inl FAILED_DOWNLOAD), st3))))"
| "process_links n e os absURL absURLObj i [] items st = Some (Inr items, st)"
| "process_links n e os absURL absURLObj i ((name0, href) # links) items st =
     (let name = link_name name0
      in case new_URL_base e (js_string href) (absURL @ ''/'') of
           None \<Rightarrow> Some (Inl ERR_INVALID_URL, st)
         | Some urlObj \<Rightarrow>
             (let linkURL = url_href urlObj
              in if linkURL \<in> set (arrs st (the_allURLs st i))
                 then process_links n e os absURL absURLObj i links items st
                 else
                   (let st1 = push_URL (the_allURLs st i) linkURL st
                    in if failed_regex os linkURL
                       then process_links n e os absURL absURLObj i links items st1
                       else if inconsistent_host os urlObj absURLObj
                       then process_links n e os absURL absURLObj i links items st1
                       else if outside_parent e os urlObj absURLObj
                       then process_links n e os absURL absURLObj i links items st1
                       else
                         (case href of
                            None \<Rightarrow> Some (Inl TypeError_undefined, st1)
                          | Some h \<Rightarrow>
                              if endsWith_slash h
                              then (case object_assign i None st1 of
                                      (copy, st2) \<Rightarrow>
                                        (case crawl n e os linkURL copy st2 of
                                           None \<Rightarrow> None
                                         | Some (Inl err, st3) \<Rightarrow> Some (Inl err, st3)
                                         | Some (Inr v, st3) \<Rightarrow>
                                             process_links n e os absURL absURLObj i links
                                               (items @ [Dir name (destructure_items v)])
                                               (emit (PushDir linkURL) st3)))
                              else if bad_extension e os h
                              then process_links n e os absURL absURLObj i links items st1
                              else process_links n e os absURL absURLObj i links
                                     (items @ [File name linkURL])
                                     (emit (PushFile linkURL) st1)))))"
  by pat_completeness auto
termination
  by (relation "inv_image (less_than <*lex*> less_than)
        (\<lambda>x. case x of
           Inl (n, e, os, absURL, i, st) \<Rightarrow> (n, 0)
         | Inr (n, e, os, absURL, absURLObj, i, links, items, st) \<Rightarrow> (n, Suc (length links)))")
     auto

text \<open>
  A call \<open>crawl(absURL, opts)\<close>: the default value \<open>{}\<close> of the third parameter is a
  new object without fields.
\<close>

definition no_fields :: internals where
  "no_fields = \<lparr>attempts = None, allURLs = None\<rparr>"

definition new_object :: "store \<Rightarrow> addr \<times> store" where
  "new_object st =
     (next_obj st, st\<lparr>objs := (objs st)(next_obj st := no_fields), next_obj := Suc (next_obj st)\<rparr>)"

definition crawl2 :: "nat \<Rightarrow> env \<Rightarrow> opts \<Rightarrow> string \<Rightarrow> store
    \<Rightarrow> ((error + crawl_value) \<times> store) option" where
  "crawl2 n e os absURL st = (case new_object st of (i, st1) \<Rightarrow> crawl n e os absURL i st1)"

text \<open>The store before anything is allocated.\<close>

definition store0 :: store where
  "store0 = \<lparr>objs = (\<lambda>_. no_fields), next_obj = 0, arrs = (\<lambda>_. []), next_arr = 0, trace = []\<rparr>"

subsection \<open>A model of \<open>url\<close> and \<open>path\<close> on plain http URLs\<close>

text \<open>
  The closed scenarios below need values of the library functions. These definitions
  follow the URL Standard's parser (which \<open>url.URL\<close> implements) and Node's POSIX
  \<open>path\<close> module on the inputs the scenarios use: URLs \<open>http://host/path\<close> with a plain
  host name, and references that are paths of plain segments, \<open>.\<close> and \<open>..\<close>, without
  scheme, query, fragment, backslash or characters that are percent-encoded, and that
  do not start with two slashes. Outside these inputs the definitions say nothing about
  the libraries, and no general theorem below depends on them. A path is its list of
  segments: \<open>/a//\<close> is \<open>[a, empty, empty]\<close>.
\<close>

fun split_slash :: "string \<Rightarrow> string list" where
  "split_slash [] = [[]]"
| "split_slash (c # cs) =
     (if c = CHR ''/'' then [] # split_slash cs
      else (case split_slash cs of w # ws \<Rightarrow> (c # w) # ws | [] \<Rightarrow> [[c]]))"

fun join_slash :: "string list \<Rightarrow> string" where
  "join_slash [] = []"
| "join_slash [w] = w"
| "join_slash (w # ws) = w @ ''/'' @ join_slash ws"

text \<open>
  The path state of the URL parser, segment by segment; \<open>segs = []\<close> says that the
  segment ended at the end of the input rather than at a slash. A double-dot segment
  removes the last segment of the path (if any), a single-dot segment adds nothing, and
  either leaves an empty last segment when it ends the input.
\<close>

fun path_state :: "string list \<Rightarrow> string list \<Rightarrow> string list" where
  "path_state path [] = path"
| "path_state path (seg # segs) =
     (if seg = ''..''
      then path_state (if segs = [] then butlast path @ [[]] else butlast path) segs
      else if seg = ''.''
      then path_state (if segs = [] then path @ [[]] else path) segs
      else path_state (path @ [seg]) segs)"

definition serialize :: "string \<Rightarrow> string list \<Rightarrow> url_obj" where
  "serialize hst path =
     \<lparr> url_href = ''http://'' @ hst @ ''/'' @ join_slash path,
       url_host = hst,
       url_pathname = ''/'' @ join_slash path \<rparr>"

definition parse_http :: "string \<Rightarrow> (string \<times> string list) option" where
  "parse_http s =
     (if take 7 s = ''http://''
      then (let rest = drop 7 s;
                hst = takeWhile (\<lambda>c. c \<noteq> CHR ''/'') rest;
                p = dropWhile (\<lambda>c. c \<noteq> CHR ''/'') rest
            in if hst = [] then None
               else Some (hst, path_state [] (split_slash (drop 1 p))))
      else None)"

text \<open>\<open>new url.URL(s)\<close>.\<close>

definition node_new_URL :: "string \<Rightarrow> url_obj option" where
  "node_new_URL s = map_option (\<lambda>(hst, path). serialize hst path) (parse_http s)"

text \<open>
  \<open>new url.URL(input, base)\<close>: an absolute input stands for itself; an empty input is
  the base; an input that starts with a slash replaces the path; any other input
  replaces the last segment of the base's path.
\<close>

definition node_new_URL_base :: "string \<Rightarrow> string \<Rightarrow> url_obj option" where
  "node_new_URL_base input base =
     (case parse_http base of
        None \<Rightarrow> None
      | Some (hst, bpath) \<Rightarrow>
          if take 7 input = ''http://'' then node_new_URL input
          else if input = [] then Some (serialize hst bpath)
          else if hd input = CHR ''/''
          then Some (serialize hst (path_state [] (split_slash (tl input))))
          else Some (serialize hst (path_state (butlast bpath) (split_slash input))))"

text \<open>
  \<open>path.resolve\<close> of an absolute path, as a list of segments: empty and single-dot
  segments are dropped, a double-dot segment removes the segment before it.
\<close>

fun normalize_segs :: "string list \<Rightarrow> string list \<Rightarrow> string list" where
  "normalize_segs acc [] = acc"
| "normalize_segs acc (s # ss) =
     (if s = [] \<or> s = ''.'' then normalize_segs acc ss
      else if s = ''..'' then normalize_segs (butlast acc) ss
      else normalize_segs (acc @ [s]) ss)"

fun strip_common :: "string list \<Rightarrow> string list \<Rightarrow> string list \<times> string list" where
  "strip_common (x # xs) (y # ys) =
     (if x = y then strip_common xs ys else (x # xs, y # ys))"
| "strip_common xs ys = (xs, ys)"

text \<open>\<open>path.relative(src, dst)\<close> of two absolute paths: one \<open>..\<close> for every segment
  of \<open>src\<close> below the common directory, then the segments of \<open>dst\<close> below it.\<close>

definition node_path_relative :: "string \<Rightarrow> string \<Rightarrow> string" where
  "node_path_relative src dst =
     (case strip_common (normalize_segs [] (split_slash src))
                        (normalize_segs [] (split_slash dst)) of
        (up, down) \<Rightarrow> join_slash (replicate (length up) ''..'' @ down))"

definition node_path_isAbsolute :: "string \<Rightarrow> bool" where
  "node_path_isAbsolute p = (p \<noteq> [] \<and> hd p = CHR ''/'')"

text \<open>
  \<open>path.extname(p)\<close> for a path that does not end in a slash: from the last dot of the
  last portion to its end; empty when that portion has no dot, when its only dot is
  its first character, or when the portion is \<open>..\<close>.
\<close>

definition node_path_extname :: "string \<Rightarrow> string" where
  "node_path_extname p =
     (let b = last (split_slash p);
          ext = rev (takeWhile (\<lambda>c. c \<noteq> CHR ''.'') (rev b));
          stem = rev (drop 1 (dropWhile (\<lambda>c. c \<noteq> CHR ''.'') (rev b)))
      in if CHR ''.'' \<notin> set b \<or> stem = [] \<or> b = ''..'' then [] else CHR ''.'' # ext)"

text \<open>An environment with these library functions, for a server \<open>srv\<close> and a parser
  \<open>parse\<close>.\<close>

definition node_env :: "(string list \<Rightarrow> string \<Rightarrow> fetch_result) \<Rightarrow> (string \<Rightarrow> anchor list) \<Rightarrow> env" where
  "node_env srv parse =
     \<lparr> fetch = srv, new_URL = node_new_URL, new_URL_base = node_new_URL_base,
       cheerio_a = parse, path_relative = node_path_relative,
       path_isAbsolute = node_path_isAbsolute, path_extname = node_path_extname \<rparr>"

text \<open>An \<open>a\<close> element whose text is its \<open>href\<close>, as a directory listing prints it.\<close>

definition listed :: "string \<Rightarrow> anchor" where
  "listed h = \<lparr>el_text = h, el_href = Some h\<rparr>"

section \<open>Notions of the verification\<close>

subsection \<open>One iteration of the loop\<close>

text \<open>
  What the loop body of lines 53 to 116 does with one link, given the contents of
  \<open>internals.allURLs\<close>: it throws before or after the URL is recorded, skips a URL
  already recorded, records and ignores it, or records it and pushes an entry.
\<close>

datatype action =
    Throw_early
  | Seen
  | Ignored string
  | Throw_late string
  | Visit string string
  | Keep string string

definition link_action ::
  "env \<Rightarrow> opts \<Rightarrow> string \<Rightarrow> url_obj \<Rightarrow> string list \<Rightarrow> string \<times> string option \<Rightarrow> action" where
  "link_action e os absURL absURLObj visited l =
     (case new_URL_base e (js_string (snd l)) (absURL @ ''/'') of
        None \<Rightarrow> Throw_early
      | Some urlObj \<Rightarrow>
          (let linkURL = url_href urlObj
           in if linkURL \<in> set visited then Seen
              else if failed_regex os linkURL \<or> inconsistent_host os urlObj absURLObj
                      \<or> outside_parent e os urlObj absURLObj
              then Ignored linkURL
              else (case snd l of
                      None \<Rightarrow> Throw_late linkURL
                    | Some h \<Rightarrow>
                        if endsWith_slash h then Visit linkURL (link_name (fst l))
                        else if bad_extension e os h then Ignored linkURL
                        else Keep linkURL (link_name (fst l)))))"

subsection \<open>Stores and traces\<close>

text \<open>The object at \<open>i\<close> is allocated and has both fields: \<open>attempts\<close> is \<open>k\<close> and
  \<open>allURLs\<close> refers to the array at \<open>a\<close>.\<close>

definition inited :: "store \<Rightarrow> addr \<Rightarrow> nat \<Rightarrow> addr \<Rightarrow> bool" where
  "inited st i k a \<longleftrightarrow>
     attempts (objs st i) = Some k \<and> allURLs (objs st i) = Some a \<and> i < next_obj st"

text \<open>
  \<open>run a st added evs st'\<close>: the store \<open>st'\<close> differs from \<open>st\<close> by new objects, by the
  URLs \<open>added\<close> appended to the array at \<open>a\<close>, and by the events \<open>evs\<close> appended to the
  trace; every object of \<open>st\<close> and every other array is as it was.
\<close>

definition run :: "addr \<Rightarrow> store \<Rightarrow> string list \<Rightarrow> event list \<Rightarrow> store \<Rightarrow> bool" where
  "run a st added evs st' \<longleftrightarrow>
     next_obj st \<le> next_obj st' \<and> next_arr st' = next_arr st \<and>
     (\<forall>j. j < next_obj st \<longrightarrow> objs st' j = objs st j) \<and>
     (\<forall>b. b \<noteq> a \<longrightarrow> arrs st' b = arrs st b) \<and>
     arrs st' a = arrs st a @ added \<and>
     trace st' = trace st @ evs"

text \<open>The URLs of the \<open>items.push\<close> events of a trace, and the entries they push: a
  file with its URL, or a directory.\<close>

fun pushed :: "event list \<Rightarrow> string list" where
  "pushed [] = []"
| "pushed (PushDir u # es) = u # pushed es"
| "pushed (PushFile u # es) = u # pushed es"
| "pushed (_ # es) = pushed es"

fun push_shape :: "event list \<Rightarrow> string option list" where
  "push_shape [] = []"
| "push_shape (PushFile u # es) = Some u # push_shape es"
| "push_shape (PushDir u # es) = None # push_shape es"
| "push_shape (_ # es) = push_shape es"

text \<open>An entry into \<open>crawl\<close> whose \<open>internals.allURLs\<close> is the array at \<open>a\<close>.\<close>

fun shares :: "addr \<Rightarrow> event \<Rightarrow> bool" where
  "shares a (Invoke u k b) = (b = a)"
| "shares a _ = True"

text \<open>The events a run added to the trace.\<close>

definition events_since :: "store \<Rightarrow> store \<Rightarrow> event list" where
  "events_since st st' = drop (length (trace st)) (trace st')"

text \<open>
  \<open>good a old added evs\<close>: the URLs recorded by a run are new and pairwise different,
  every pushed entry has a URL of its own among them, and every nested call shares the
  array at \<open>a\<close>.
\<close>

definition good :: "addr \<Rightarrow> string list \<Rightarrow> string list \<Rightarrow> event list \<Rightarrow> bool" where
  "good a old added evs \<longleftrightarrow>
     distinct added \<and> set added \<inter> set old = {} \<and>
     set (pushed evs) \<subseteq> set added \<and> distinct (pushed evs) \<and>
     list_all (shares a) evs"

subsection \<open>Trees\<close>

text \<open>
  The entries of a tree in the order in which they are pushed: a file with its
  \<open>downloaderArg\<close>, and a directory after the entries below it.
\<close>

fun shape :: "item \<Rightarrow> string option list" where
  "shape (File name u) = [Some u]"
| "shape (Dir name None) = [None]"
| "shape (Dir name (Some xs)) = concat (map shape xs) @ [None]"

fun value_shape :: "crawl_value \<Rightarrow> string option list" where
  "value_shape (Items xs) = concat (map shape xs)"
| "value_shape EmptyArray = []"

text \<open>The events of \<open>c\<close> consecutive attempts on \<open>u\<close>, the first with the counter at
  \<open>k\<close>.\<close>

fun retry_events :: "string \<Rightarrow> addr \<Rightarrow> nat \<Rightarrow> nat \<Rightarrow> event list" where
  "retry_events u a k 0 = []"
| "retry_events u a k (Suc c) = Invoke u k a # Fetch u # retry_events u a (Suc k) c"

text \<open>The contents of \<open>internals.allURLs\<close>; an absent field counts as no URL.\<close>

definition known_URLs :: "store \<Rightarrow> addr \<Rightarrow> string list" where
  "known_URLs st i = (case allURLs (objs st i) of None \<Rightarrow> [] | Some a \<Rightarrow> arrs st a)"

subsection \<open>Scenarios\<close>

text \<open>
  A server with the directory \<open>/a/\<close> of the spec's scenario: the listing of \<open>/a/\<close> links
  to \<open>b/\<close>, \<open>c.mp3\<close> and \<open>../escape.mp3\<close>, the listing of \<open>/a/b/\<close> to \<open>d.mp3\<close>. It
  serves a directory with or without a doubled slash in its path and answers 404, with
  a page without links, for any other URL. A page is named by a word; \<open>parse_a\<close> gives
  the \<open>a\<close> elements of each page.
\<close>

definition srv_a :: "string list \<Rightarrow> string \<Rightarrow> fetch_result" where
  "srv_a hist u =
     (if u = ''http://host/a/'' \<or> u = ''http://host/a'' then Response 200 (Some ''listing of a'')
      else if u = ''http://host/a/b/'' \<or> u = ''http://host/a//b/''
      then Response 200 (Some ''listing of b'')
      else Response 404 (Some ''not found''))"

definition parse_a :: "string \<Rightarrow> anchor list" where
  "parse_a page =
     (if page = ''listing of a'' then [listed ''b/'', listed ''c.mp3'', listed ''../escape.mp3'']
      else if page = ''listing of b'' then [listed ''d.mp3'']
      else [])"

definition env_a :: env where
  "env_a = node_env srv_a parse_a"

text \<open>The server of \<open>srv_a\<close> with \<open>/a/b/\<close> unreachable: every request for it is rejected.\<close>

definition srv_b_down :: "string list \<Rightarrow> string \<Rightarrow> fetch_result" where
  "srv_b_down hist u =
     (if u = ''http://host/a/b/'' \<or> u = ''http://host/a//b/'' then Rejected else srv_a hist u)"

text \<open>The server of \<open>srv_a\<close> with a first request that is rejected, whatever it asks for.\<close>

definition srv_flaky :: "string list \<Rightarrow> string \<Rightarrow> fetch_result" where
  "srv_flaky hist u = (if hist = [] then Rejected else srv_a hist u)"

text \<open>
  The store in which the loop over the links of \<open>http://host/a/\<close> starts, for a call
  \<open>crawl(absURL, opts)\<close> from the empty store whose first fetch succeeds, and the URL
  object of that directory.
\<close>

definition st_a :: store where
  "st_a = emit (Fetch ''http://host/a/'') (emit (Invoke ''http://host/a/'' 0 0)
            (init_allURLs 0 (init_attempts 0 (snd (new_object store0)))))"

definition root_a :: url_obj where
  "root_a = \<lparr>url_href = ''http://host/a/'', url_host = ''host'', url_pathname = ''/a/''\<rparr>"

text \<open>
  The store in which the loop over the links of \<open>http://host/a/\<close> starts when the first
  fetch of that URL was rejected and the second succeeded: the retry runs on the copy
  of \<open>internals\<close> at address 1, whose \<open>attempts\<close> is 1.
\<close>

definition st_retried :: store where
  "st_retried =
     emit (Fetch ''http://host/a/'') (emit (Invoke ''http://host/a/'' 1 0)
       (snd (object_assign 0 (Some 1) st_a)))"

subsection \<open>Servers that differ in their status codes only\<close>

text \<open>The same answer with another status, and an environment whose server answers as
  that of \<open>e\<close> does, but with the statuses that \<open>g\<close> chooses.\<close>

definition restatus :: "(nat \<Rightarrow> nat) \<Rightarrow> fetch_result \<Rightarrow> fetch_result" where
  "restatus f x = (case x of Rejected \<Rightarrow> Rejected | Response s b \<Rightarrow> Response (f s) b)"

definition with_statuses :: "(string list \<Rightarrow> string \<Rightarrow> nat \<Rightarrow> nat) \<Rightarrow> env \<Rightarrow> env" where
  "with_statuses g e = e\<lparr>fetch := \<lambda>hist u. restatus (g hist u) (fetch e hist u)\<rparr>"

text \<open>The listing of \<open>/a/\<close> with a link whose \<open>href\<close> is no URL: \<open>http://\<close> has no host.\<close>

definition parse_broken :: "string \<Rightarrow> anchor list" where
  "parse_broken page =
     (if page = ''listing of a''
      then [listed ''c.mp3'', \<lparr>el_text = ''broken'', el_href = Some ''http://''\<rparr>]
      else [])"

text \<open>The listing of \<open>/a/\<close> with an \<open>a\<close> element that has no \<open>href\<close> (a named anchor)
  before its one link.\<close>

definition parse_named :: "string \<Rightarrow> anchor list" where
  "parse_named page =
     (if page = ''listing of a''
      then [\<lparr>el_text = ''Top'', el_href = None\<rparr>, listed ''c.mp3'']
      else [])"

text \<open>
  The pair the specification describes for an \<open>a\<close> element: its text and its \<open>href\<close>,
  or the empty string when it has none.
\<close>

definition spec_link :: "anchor \<Rightarrow> string \<times> string option" where
  "spec_link el = (el_text el, Some (case el_href el of None \<Rightarrow> [] | Some h \<Rightarrow> h))"

text \<open>
  A server with one resource: it answers every request with the same listing, whose
  one link is \<open>a/\<close>, as a directory does that holds a link to itself under the name
  \<open>a\<close>.
\<close>

definition srv_loop :: "string list \<Rightarrow> string \<Rightarrow> fetch_result" where
  "srv_loop hist u = Response 200 (Some ''listing'')"

definition parse_loop :: "string \<Rightarrow> anchor list" where
  "parse_loop page = [listed ''a/'']"

definition env_loop :: env where
  "env_loop = node_env srv_loop parse_loop"

text \<open>The URL on \<open>host\<close> with the path of the given segments, and the paths whose
  segments are empty or \<open>a\<close>.\<close>

definition host_url :: "string list \<Rightarrow> string" where
  "host_url path = ''http://host/'' @ join_slash path"

definition plain :: "string list \<Rightarrow> bool" where
  "plain path \<longleftrightarrow> path \<noteq> [] \<and> list_all (\<lambda>w. w = [] \<or> w = ''a'') path"

subsection \<open>The directories a crawl can enter\<close>

text \<open>
  The loop of the directory \<open>absURLObj\<close> follows a link that resolved to \<open>urlObj\<close>, if it
  has not recorded that URL before: the link passes the three filters of lines 74 to
  90 and its \<open>href\<close> ends in a slash.
\<close>

definition follows :: "env \<Rightarrow> opts \<Rightarrow> url_obj \<Rightarrow> string \<times> string option \<Rightarrow> url_obj \<Rightarrow> bool" where
  "follows e os absURLObj l urlObj \<longleftrightarrow>
     \<not> failed_regex os (url_href urlObj) \<and> \<not> inconsistent_host os urlObj absURLObj \<and>
     \<not> outside_parent e os urlObj absURLObj \<and>
     (case snd l of None \<Rightarrow> False | Some h \<Rightarrow> endsWith_slash h)"

text \<open>
  A set \<open>D\<close> of URLs is closed when, whatever page the server answers with for a URL of
  \<open>D\<close>, every link of that page that the loop follows resolves to a URL of \<open>D\<close> again.
  Links that the loop records without following them are not constrained, nor are the
  pages of URLs outside \<open>D\<close>.
\<close>

definition closed_dirs :: "env \<Rightarrow> opts \<Rightarrow> string set \<Rightarrow> bool" where
  "closed_dirs e os D \<longleftrightarrow>
     (\<forall>hist u uo s page l v.
        u \<in> D \<and> new_URL e u = Some uo \<and> fetch e hist u = Response s (Some page) \<and>
        l \<in> set (getHTMLLinks e page) \<and>
        new_URL_base e (js_string (snd l)) (u @ ''/'') = Some v \<and> follows e os uo l v
        \<longrightarrow> url_href v \<in> D)"

text \<open>
  The directories of a closed set \<open>D\<close> are sound when each URL of \<open>D\<close> is well formed,
  the body of every response for it can be read, and every link of its pages has an
  \<open>href\<close> that the URL constructor accepts.
\<close>

definition sound_dirs :: "env \<Rightarrow> opts \<Rightarrow> string set \<Rightarrow> bool" where
  "sound_dirs e os D \<longleftrightarrow>
     closed_dirs e os D \<and>
     (\<forall>u. u \<in> D \<longrightarrow> new_URL e u \<noteq> None) \<and>
     (\<forall>hist u s. u \<in> D \<longrightarrow> fetch e hist u \<noteq> Response s None) \<and>
     (\<forall>hist u s page l.
        u \<in> D \<and> fetch e hist u = Response s (Some page) \<and> l \<in> set (getHTMLLinks e page)
        \<longrightarrow> snd l \<noteq> None \<and> new_URL_base e (js_string (snd l)) (u @ ''/'') \<noteq> None)"

text \<open>The store of a call of \<open>crawl\<close> when the promise of \<open>fetch\<close> settles: lines 30 and
  35 have run, and the entry and the fetch are in the trace.\<close>

definition entered :: "string \<Rightarrow> addr \<Rightarrow> store \<Rightarrow> store" where
  "entered u i st =
     (let st1 = init_allURLs i (init_attempts i st)
      in emit (Fetch u) (emit (Invoke u (the_attempts st1 i) (the_allURLs st1 i)) st1))"

text \<open>The directories of the server \<open>srv_a\<close> that a crawl of \<open>http://host/a/\<close> enters.\<close>

definition dirs_a :: "string set" where
  "dirs_a = {''http://host/a/'', ''http://host/a//b/''}"

text \<open>A server whose responses have no readable body.\<close>

definition srv_no_body :: "string list \<Rightarrow> string \<Rightarrow> fetch_result" where
  "srv_no_body hist u = Response 200 None"

text \<open>The listings of \<open>srv_a\<close> with the broken link in the subdirectory \<open>b/\<close>.\<close>

definition parse_broken_below :: "string \<Rightarrow> anchor list" where
  "parse_broken_below page =
     (if page = ''listing of a'' then [listed ''b/'', listed ''c.mp3'']
      else if page = ''listing of b''
      then [\<lparr>el_text = ''broken'', el_href = Some ''http://''\<rparr>]
      else [])"

text \<open>
  A server whose directory \<open>/a/\<close> lists a link to the root of the host, where an
  endless chain of directories starts: every other URL answers with the listing of
  \<open>srv_loop\<close>.
\<close>

definition srv_up :: "string list \<Rightarrow> string \<Rightarrow> fetch_result" where
  "srv_up hist u =
     (if u = ''http://host/a/'' then Response 200 (Some ''listing with parent'')
      else Response 200 (Some ''listing''))"

definition parse_up :: "string \<Rightarrow> anchor list" where
  "parse_up page =
     (if page = ''listing with parent'' then [\<lparr>el_text = ''Parent'', el_href = Some ''/''\<rparr>]
      else [listed ''a/''])"

definition env_up :: env where
  "env_up = node_env srv_up parse_up"

section \<open>Lemmas\<close>

subsection \<open>The loop body, one link at a time\<close>

text \<open>One iteration of the loop is the case distinction over \<open>link_action\<close>.\<close>

lemma process_links_Cons:
  "process_links n e os absURL absURLObj i (l # links) items st =
     (case link_action e os absURL absURLObj (arrs st (the_allURLs st i)) l of
        Throw_early \<Rightarrow> Some (Inl ERR_INVALID_URL, st)
      | Seen \<Rightarrow> process_links n e os absURL absURLObj i links items st
      | Ignored u \<Rightarrow>
          process_links n e os absURL absURLObj i links items (push_URL (the_allURLs st i) u st)
      | Throw_late u \<Rightarrow> Some (Inl TypeError_undefined, push_URL (the_allURLs st i) u st)
      | Visit u name \<Rightarrow>
          (case object_assign i None (push_URL (the_allURLs st i) u st) of
             (copy, st2) \<Rightarrow>
               (case crawl n e os u copy st2 of
                  None \<Rightarrow> None
                | Some (Inl err, st3) \<Rightarrow> Some (Inl err, st3)
                | Some (Inr v, st3) \<Rightarrow>
                    process_links n e os absURL absURLObj i links
                      (items @ [Dir name (destructure_items v)]) (emit (PushDir u) st3)))
      | Keep u name \<Rightarrow>
          process_links n e os absURL absURLObj i links (items @ [File name u])
            (emit (PushFile u) (push_URL (the_allURLs st i) u st)))"
  by (cases l) (simp add: link_action_def Let_def split: option.splits)

lemma link_action_fresh:
  "link_action e os absURL absURLObj visited l = A \<Longrightarrow>
   A = Ignored u \<or> A = Throw_late u \<or> A = Visit u name \<or> A = Keep u name \<Longrightarrow> u \<notin> set visited"
  by (auto simp: link_action_def Let_def split: option.splits if_splits)

lemma inited_reads:
  "inited st i k a \<Longrightarrow> the_attempts st i = k"
  "inited st i k a \<Longrightarrow> the_allURLs st i = a"
  by (simp_all add: inited_def the_attempts_def the_allURLs_def)

lemma attempts_update_same: "attempts r = Some k \<Longrightarrow> r\<lparr>attempts := Some k\<rparr> = r"
  by (cases r) simp

lemma inited_init:
  "inited st i k a \<Longrightarrow> init_allURLs i (init_attempts i st) = st"
  by (cases k) (simp_all add: inited_def init_attempts_def init_allURLs_def attempts_update_same)

lemma run_refl: "run a st [] [] st"
  by (simp add: run_def)

lemma run_trans:
  "run a st m1 e1 st1 \<Longrightarrow> run a st1 m2 e2 st2 \<Longrightarrow> run a st (m1 @ m2) (e1 @ e2) st2"
  by (auto simp: run_def)

lemma run_emit: "run a st [] [ev] (emit ev st)"
  by (simp add: run_def emit_def)

lemma run_push: "run a st [u] [] (push_URL a u st)"
  by (simp add: run_def push_URL_def)

lemma run_object_assign: "object_assign i upd st = (c, st') \<Longrightarrow> run a st [] [] st'"
  by (auto simp: run_def object_assign_def Let_def)

lemma inited_run: "inited st i k a \<Longrightarrow> run b st m es st' \<Longrightarrow> inited st' i k a"
  by (auto simp: inited_def run_def)

lemma inited_copy:
  "inited st i k a \<Longrightarrow> object_assign i None st = (c, st') \<Longrightarrow> inited st' c k a"
  "inited st i k a \<Longrightarrow> object_assign i (Some k') st = (c, st') \<Longrightarrow> inited st' c k' a"
  by (auto simp: inited_def object_assign_def Let_def)

lemma pushed_append [simp]: "pushed (xs @ ys) = pushed xs @ pushed ys"
  by (induction xs rule: pushed.induct) simp_all

lemma push_shape_append [simp]: "push_shape (xs @ ys) = push_shape xs @ push_shape ys"
  by (induction xs rule: push_shape.induct) simp_all

lemma length_push_shape: "length (push_shape es) = length (pushed es)"
  by (induction es rule: push_shape.induct) simp_all

lemma shape_Dir [simp]: "shape (Dir name (destructure_items v)) = value_shape v @ [None]"
  by (cases v) simp_all

lemma catch_handler_other: "r \<noteq> Inl FAILED_DOWNLOAD \<Longrightarrow> catch_handler r = r"
  by (cases r rule: catch_handler.cases) simp_all

lemma catch_handler_never: "catch_handler r \<noteq> Inl FAILED_DOWNLOAD"
  by (cases r rule: catch_handler.cases) simp_all

lemma requests_append: "requests (xs @ ys) = requests xs @ requests ys"
  by (induction xs rule: requests.induct) simp_all

lemma good_Nil: "good a old [] []"
  by (simp add: good_def)

lemma good_trans:
  "good a old m1 e1 \<Longrightarrow> good a (old @ m1) m2 e2 \<Longrightarrow> good a old (m1 @ m2) (e1 @ e2)"
  by (auto simp: good_def)

lemma good_push: "x \<notin> set old \<Longrightarrow> good a old [x] []"
  by (simp add: good_def)

lemma good_keep: "x \<notin> set old \<Longrightarrow> good a old [x] [PushFile x]"
  by (simp add: good_def)

lemma good_visit:
  "x \<notin> set old \<Longrightarrow> good a (old @ [x]) ac ec \<Longrightarrow> good a old (x # ac) (ec @ [PushDir x])"
  by (auto simp: good_def)

lemma step_trans:
  "run a st m1 e1 st1 \<and> good a (arrs st a) m1 e1 \<Longrightarrow>
   run a st1 m2 e2 st2 \<and> good a (arrs st1 a) m2 e2 \<Longrightarrow>
   run a st (m1 @ m2) (e1 @ e2) st2 \<and> good a (arrs st a) (m1 @ m2) (e1 @ e2)"
  using run_trans good_trans by (metis run_def)

text \<open>
  The invariant of the loop, given that of the nested calls: the store changes as
  \<open>run\<close> says, the URLs recorded and the entries pushed are \<open>good\<close>, the string of line
  139 is never what is thrown, and the list returned is \<open>items\<close> with the pushed entries
  appended.
\<close>

lemma process_links_inv:
  assumes IH: "\<And>u i st r st' k.
      crawl n e os u i st = Some (r, st') \<Longrightarrow> inited st i k a \<Longrightarrow>
      \<exists>added evs. run a st added evs st' \<and> good a (arrs st a) added evs \<and>
        r \<noteq> Inl FAILED_DOWNLOAD \<and>
        (\<forall>v. r = Inr v \<longrightarrow>
           value_shape v = push_shape evs)"
  shows "process_links n e os u uo i links items st = Some (r, st') \<Longrightarrow> inited st i k a \<Longrightarrow>
      \<exists>added evs. run a st added evs st' \<and> good a (arrs st a) added evs \<and>
        r \<noteq> Inl FAILED_DOWNLOAD \<and>
        (\<forall>items'. r = Inr items' \<longrightarrow>
           (\<exists>xs. items' = items @ xs \<and> concat (map shape xs) = push_shape evs))"
proof (induction links arbitrary: items st)
  case Nil
  then have "r = Inr items" "st' = st" by simp_all
  then show ?case using run_refl good_Nil by fastforce
next
  case (Cons l links)
  note ini = \<open>inited st i k a\<close>
  have rd: "the_allURLs st i = a" using ini by (rule inited_reads)
  note eq = Cons.prems(1)[unfolded process_links_Cons rd]
  show ?case
  proof (cases "link_action e os u uo (arrs st a) l")
    case Throw_early
    with eq have "r = Inl ERR_INVALID_URL" "st' = st" by simp_all
    then show ?thesis using run_refl good_Nil by fastforce
  next
    case Seen
    with eq have "process_links n e os u uo i links items st = Some (r, st')" by simp
    from Cons.IH[OF this ini] show ?thesis .
  next
    case (Ignored x)
    let ?st1 = "push_URL a x st"
    have fresh: "x \<notin> set (arrs st a)" using link_action_fresh[OF Ignored] by blast
    have s1: "run a st [x] [] ?st1 \<and> good a (arrs st a) [x] []"
      using run_push good_push[OF fresh] by blast
    have ini1: "inited ?st1 i k a" using inited_run[OF ini] run_push by blast
    from eq Ignored have "process_links n e os u uo i links items ?st1 = Some (r, st')" by simp
    from Cons.IH[OF this ini1] obtain added evs where
      r: "run a ?st1 added evs st' \<and> good a (arrs ?st1 a) added evs"
      and nf: "r \<noteq> Inl FAILED_DOWNLOAD"
      and it: "\<forall>items'. r = Inr items' \<longrightarrow>
           (\<exists>xs. items' = items @ xs \<and> concat (map shape xs) = push_shape evs)" by blast
    from step_trans[OF s1 r] nf it show ?thesis by (intro exI[of _ "[x] @ added"] exI[of _ "[] @ evs"]) simp
  next
    case (Throw_late x)
    have fresh: "x \<notin> set (arrs st a)" using link_action_fresh[OF Throw_late] by blast
    from eq Throw_late have "r = Inl TypeError_undefined" "st' = push_URL a x st" by simp_all
    then show ?thesis using run_push good_push[OF fresh] by fastforce
  next
    case (Visit x name)
    let ?st1 = "push_URL a x st"
    have fresh: "x \<notin> set (arrs st a)" using link_action_fresh[OF Visit] by blast
    obtain c st2 where oa: "object_assign i None ?st1 = (c, st2)" by (cases "object_assign i None ?st1")
    have ini1: "inited ?st1 i k a" using inited_run[OF ini] run_push by blast
    have ini2: "inited st2 c k a" using inited_copy(1)[OF ini1 oa] .
    have ini2': "inited st2 i k a" using inited_run[OF ini1 run_object_assign[OF oa]] .
    have a1: "arrs ?st1 a = arrs st a @ [x]" by (simp add: push_URL_def)
    have a2: "arrs st2 a = arrs st a @ [x]" using run_object_assign[OF oa, of a] a1 by (simp add: run_def)
    have r02: "run a st [x] [] st2" using run_trans[OF run_push run_object_assign[OF oa]] by simp
    from eq Visit oa obtain rc st3 where cr: "crawl n e os x c st2 = Some (rc, st3)"
      by (auto split: option.splits)
    from IH[OF cr ini2] obtain ac ec where
      rc: "run a st2 ac ec st3" and gc: "good a (arrs st2 a) ac ec"
      and nfc: "rc \<noteq> Inl FAILED_DOWNLOAD"
      and vc: "\<forall>v. rc = Inr v \<longrightarrow>
           value_shape v = push_shape ec" by blast
    have r03: "run a st (x # ac) ec st3" using run_trans[OF r02 rc] by simp
    have g03: "good a (arrs st a) (x # ac) (ec @ [PushDir x])"
      using good_visit[OF fresh] gc a2 by simp
    have g03': "good a (arrs st a) (x # ac) ec"
      using g03 by (auto simp: good_def)
    show ?thesis
    proof (cases rc)
      case (Inl err)
      with eq Visit oa cr have "r = Inl err" "st' = st3" by simp_all
      with r03 g03' nfc Inl show ?thesis by fastforce
    next
      case (Inr v)
      let ?st4 = "emit (PushDir x) st3"
      from eq Visit oa cr Inr have
        pl: "process_links n e os u uo i links (items @ [Dir name (destructure_items v)]) ?st4 = Some (r, st')"
        by simp
      have r04: "run a st (x # ac) (ec @ [PushDir x]) ?st4"
        using run_trans[OF r03 run_emit] by simp
      have ini4: "inited ?st4 i k a" using inited_run[OF ini r04] .
      from Cons.IH[OF pl ini4] obtain ar er where
        rr: "run a ?st4 ar er st' \<and> good a (arrs ?st4 a) ar er"
        and nf: "r \<noteq> Inl FAILED_DOWNLOAD"
        and it: "\<forall>items'. r = Inr items' \<longrightarrow>
           (\<exists>xs. items' = (items @ [Dir name (destructure_items v)]) @ xs \<and>
                 concat (map shape xs) = push_shape er)" by blast
      have st: "run a st ((x # ac) @ ar) ((ec @ [PushDir x]) @ er) st' \<and>
                good a (arrs st a) ((x # ac) @ ar) ((ec @ [PushDir x]) @ er)"
        using step_trans[OF _ rr] r04 g03 by blast
      have "\<forall>items'. r = Inr items' \<longrightarrow>
           (\<exists>xs. items' = items @ xs \<and>
                 concat (map shape xs) = push_shape ((ec @ [PushDir x]) @ er))"
      proof (intro allI impI)
        fix items' assume "r = Inr items'"
        with it obtain xs where xs: "items' = (items @ [Dir name (destructure_items v)]) @ xs"
          "concat (map shape xs) = push_shape er" by blast
        show "\<exists>xs. items' = items @ xs \<and>
                 concat (map shape xs) = push_shape ((ec @ [PushDir x]) @ er)"
          using xs vc Inr by (intro exI[of _ "Dir name (destructure_items v) # xs"]) simp
      qed
      with st nf show ?thesis by blast
    qed
  next
    case (Keep x name)
    let ?st1 = "emit (PushFile x) (push_URL a x st)"
    have fresh: "x \<notin> set (arrs st a)" using link_action_fresh[OF Keep] by blast
    have r1: "run a st [x] [PushFile x] ?st1" using run_trans[OF run_push run_emit] by simp
    have s1: "run a st [x] [PushFile x] ?st1 \<and> good a (arrs st a) [x] [PushFile x]"
      using r1 good_keep[OF fresh] by blast
    have ini1: "inited ?st1 i k a" using inited_run[OF ini r1] .
    from eq Keep have "process_links n e os u uo i links (items @ [File name x]) ?st1 = Some (r, st')" by simp
    from Cons.IH[OF this ini1] obtain added evs where
      r: "run a ?st1 added evs st' \<and> good a (arrs ?st1 a) added evs"
      and nf: "r \<noteq> Inl FAILED_DOWNLOAD"
      and it: "\<forall>items'. r = Inr items' \<longrightarrow>
           (\<exists>xs. items' = (items @ [File name x]) @ xs \<and> concat (map shape xs) = push_shape evs)" by blast
    have "\<forall>items'. r = Inr items' \<longrightarrow>
           (\<exists>xs. items' = items @ xs \<and>
                 concat (map shape xs) = push_shape ([PushFile x] @ evs))"
    proof (intro allI impI)
      fix items' assume "r = Inr items'"
      with it obtain xs where xs: "items' = (items @ [File name x]) @ xs"
        "concat (map shape xs) = push_shape evs" by blast
      show "\<exists>xs. items' = items @ xs \<and>
                 concat (map shape xs) = push_shape ([PushFile x] @ evs)"
        using xs by (intro exI[of _ "File name x # xs"]) simp
    qed
    with step_trans[OF s1 r] nf show ?thesis by blast
  qed
qed

lemma emit_simps [simp]:
  "trace (emit ev st) = trace st @ [ev]"
  "objs (emit ev st) = objs st"
  "arrs (emit ev st) = arrs st"
  "next_obj (emit ev st) = next_obj st"
  "next_arr (emit ev st) = next_arr st"
  by (simp_all add: emit_def)

lemma reads_emit [simp]:
  "the_attempts (emit ev st) i = the_attempts st i"
  "the_allURLs (emit ev st) i = the_allURLs st i"
  by (simp_all add: the_attempts_def the_allURLs_def split: option.splits)

lemma requests_snoc [simp]:
  "requests (es @ [Invoke u k a]) = requests es"
  "requests (es @ [Fetch u]) = requests es @ [u]"
  "requests (es @ [PushDir u]) = requests es"
  "requests (es @ [PushFile u]) = requests es"
  by (simp_all add: requests_append)

text \<open>\<open>crawl\<close> on an object that has both fields: lines 30 and 35 change nothing.\<close>

lemma crawl_Suc_inited:
  assumes "inited st i k a"
  shows "crawl (Suc n) e os absURL i st =
     (case new_URL e absURL of
        None \<Rightarrow> Some (Inl ERR_INVALID_URL, emit (Invoke absURL k a) st)
      | Some absURLObj \<Rightarrow>
          (case fetch e (requests (trace st)) absURL of
             Rejected \<Rightarrow>
               if k < maxAttempts os
               then (case object_assign i (Some (Suc k))
                            (emit (Fetch absURL) (emit (Invoke absURL k a) st)) of
                       (copy, st4) \<Rightarrow>
                         (case crawl n e os absURL copy st4 of
                            None \<Rightarrow> None
                          | Some (r, st5) \<Rightarrow> Some (catch_handler r, st5)))
               else Some (Inr EmptyArray, emit (Fetch absURL) (emit (Invoke absURL k a) st))
           | Response status None \<Rightarrow>
               Some (Inl BodyError, emit (Fetch absURL) (emit (Invoke absURL k a) st))
           | Response status (Some text) \<Rightarrow>
               (case process_links n e os absURL absURLObj i (getHTMLLinks e text) []
                            (emit (Fetch absURL) (emit (Invoke absURL k a) st)) of
                  None \<Rightarrow> None
                | Some (Inl err, st4) \<Rightarrow> Some (catch_handler (Inl err), st4)
                | Some (Inr items, st4) \<Rightarrow> Some (Inr (Items items), st4))))"
  by (simp add: inited_init[OF assms] inited_reads[OF assms] Let_def
        split: option.splits fetch_result.splits sum.splits prod.splits)

text \<open>The invariant of \<open>crawl\<close>, by induction on the nesting depth.\<close>

lemma crawl_inv:
  "crawl n e os u i st = Some (r, st') \<Longrightarrow> inited st i k a \<Longrightarrow>
      \<exists>added evs. run a st added evs st' \<and> good a (arrs st a) added evs \<and>
        r \<noteq> Inl FAILED_DOWNLOAD \<and>
        (\<forall>v. r = Inr v \<longrightarrow>
           value_shape v = push_shape evs)"
proof (induction n arbitrary: u i st r st' k)
  case 0
  then show ?case by simp
next
  case (Suc n)
  note ini = \<open>inited st i k a\<close>
  note eq = Suc.prems(1)[unfolded crawl_Suc_inited[OF ini]]
  let ?st2 = "emit (Invoke u k a) st"
  let ?st3 = "emit (Fetch u) ?st2"
  have r2: "run a st [] [Invoke u k a] ?st2" by (rule run_emit)
  have g2: "good a (arrs st a) [] [Invoke u k a]" by (simp add: good_def)
  have r3: "run a st [] [Invoke u k a, Fetch u] ?st3"
    using run_trans[OF r2 run_emit] by simp
  have g3: "good a (arrs st a) [] [Invoke u k a, Fetch u]" by (simp add: good_def)
  have ini3: "inited ?st3 i k a" using inited_run[OF ini r3] .
  show ?case
  proof (cases "new_URL e u")
    case None
    with eq have "r = Inl ERR_INVALID_URL" "st' = ?st2" by simp_all
    with r2 g2 show ?thesis by fastforce
  next
    case (Some uo)
    show ?thesis
    proof (cases "fetch e (requests (trace st)) u")
      case Rejected
      show ?thesis
      proof (cases "k < maxAttempts os")
        case True
        obtain c st4 where oa: "object_assign i (Some (Suc k)) ?st3 = (c, st4)"
          by (cases "object_assign i (Some (Suc k)) ?st3")
        from eq Some Rejected True oa obtain r0 where
          cr: "crawl n e os u c st4 = Some (r0, st')" and rr: "r = catch_handler r0"
          by (auto split: option.splits)
        have ini4: "inited st4 c (Suc k) a" using inited_copy(2)[OF ini3 oa] .
        from Suc.IH[OF cr ini4] obtain added evs where
          s: "run a st4 added evs st' \<and> good a (arrs st4 a) added evs"
          and nf: "r0 \<noteq> Inl FAILED_DOWNLOAD"
          and v: "\<forall>v. r0 = Inr v \<longrightarrow>
             value_shape v = push_shape evs" by blast
        have rr': "r = r0" using rr catch_handler_other[OF nf] by simp
        have s4: "run a st [] [Invoke u k a, Fetch u] st4 \<and> good a (arrs st a) [] [Invoke u k a, Fetch u]"
          using run_trans[OF r3 run_object_assign[OF oa]] g3 by simp
        from step_trans[OF s4 s] nf v rr' show ?thesis
          by (intro exI[of _ "[] @ added"] exI[of _ "[Invoke u k a, Fetch u] @ evs"]) simp
      next
        case False
        with eq Some Rejected have "r = Inr EmptyArray" "st' = ?st3" by simp_all
        with r3 g3 show ?thesis by fastforce
      qed
    next
      case (Response status body)
      show ?thesis
      proof (cases body)
        case None
        with eq Some Response have "r = Inl BodyError" "st' = ?st3" by simp_all
        with r3 g3 show ?thesis by fastforce
      next
        case (Some page)
        from eq \<open>new_URL e u = Some uo\<close> Response Some obtain r0 where
          pl: "process_links n e os u uo i (getHTMLLinks e page) [] ?st3 = Some (r0, st')"
          and rr: "r = (case r0 of Inl err \<Rightarrow> catch_handler (Inl err) | Inr items \<Rightarrow> Inr (Items items))"
          by (auto split: option.splits sum.splits)
        have "\<exists>added evs. run a ?st3 added evs st' \<and> good a (arrs ?st3 a) added evs \<and>
          r0 \<noteq> Inl FAILED_DOWNLOAD \<and>
          (\<forall>items'. r0 = Inr items' \<longrightarrow>
           (\<exists>xs. items' = [] @ xs \<and> concat (map shape xs) = push_shape evs))"
          by (rule process_links_inv[OF _ pl ini3]) (rule Suc.IH)
        then obtain added evs where
          s: "run a ?st3 added evs st' \<and> good a (arrs ?st3 a) added evs"
          and nf: "r0 \<noteq> Inl FAILED_DOWNLOAD"
          and it: "\<forall>items'. r0 = Inr items' \<longrightarrow>
           (\<exists>xs. items' = [] @ xs \<and> concat (map shape xs) = push_shape evs)" by blast
        have s3: "run a st [] [Invoke u k a, Fetch u] ?st3 \<and> good a (arrs st a) [] [Invoke u k a, Fetch u]"
          using r3 g3 by simp
        have nf': "r \<noteq> Inl FAILED_DOWNLOAD"
          using rr catch_handler_never by (cases r0) auto
        have v: "\<forall>v. r = Inr v \<longrightarrow>
           value_shape v = push_shape ([Invoke u k a, Fetch u] @ evs)"
          using rr it nf by (cases r0) (auto simp: catch_handler_other)
        from step_trans[OF s3 s] nf' v show ?thesis
          by (intro exI[of _ "[] @ added"] exI[of _ "[Invoke u k a, Fetch u] @ evs"]) simp
      qed
    qed
  qed
qed

subsection \<open>What a whole run does to the store and the trace\<close>

lemma inited_after_init:
  "i < next_obj st \<Longrightarrow>
   inited (init_allURLs i (init_attempts i st)) i
     (the_attempts (init_allURLs i (init_attempts i st)) i)
     (the_allURLs (init_allURLs i (init_attempts i st)) i)"
  by (auto simp: inited_def the_attempts_def the_allURLs_def init_attempts_def init_allURLs_def
           split: option.splits nat.splits)

lemma crawl_init:
  assumes "i < next_obj st"
  shows "crawl n e os u i (init_allURLs i (init_attempts i st)) = crawl n e os u i st"
proof (cases n)
  case 0
  then show ?thesis by simp
next
  case (Suc m)
  have "init_allURLs i (init_attempts i (init_allURLs i (init_attempts i st)))
        = init_allURLs i (init_attempts i st)"
    using inited_init[OF inited_after_init[OF assms]] .
  then show ?thesis using Suc by (simp only: crawl.simps)
qed

lemma init_frame:
  "trace (init_allURLs i (init_attempts i st)) = trace st"
  "next_obj (init_allURLs i (init_attempts i st)) = next_obj st"
  "arrs (init_allURLs i (init_attempts i st)) (the_allURLs (init_allURLs i (init_attempts i st)) i)
     = known_URLs st i"
  by (auto simp: init_attempts_def init_allURLs_def the_allURLs_def known_URLs_def
           split: option.splits nat.splits)

lemma events_since_run: "run a st added evs st' \<Longrightarrow> events_since st st' = evs"
  by (simp add: run_def events_since_def)

subsection \<open>A URL that cannot be fetched\<close>

lemma requests_retry_events [simp]: "requests (retry_events u a k c) = replicate c u"
  by (induction c arbitrary: k) simp_all

text \<open>A URL whose every fetch is rejected: the attempts from counter \<open>k\<close> on, one more
  than \<open>maxAttempts - k\<close>, and then the bare array.\<close>

lemma retry_exhaustion:
  assumes rej: "\<forall>hist. fetch e hist u = Rejected" and url: "new_URL e u \<noteq> None"
  shows "inited st i k a \<Longrightarrow> maxAttempts os - k < n \<Longrightarrow>
     \<exists>st'. crawl n e os u i st = Some (Inr EmptyArray, st') \<and>
           run a st [] (retry_events u a k (Suc (maxAttempts os - k))) st'"
proof (induction n arbitrary: st i k)
  case 0
  then show ?case by simp
next
  case (Suc n)
  note ini = \<open>inited st i k a\<close>
  let ?st3 = "emit (Fetch u) (emit (Invoke u k a) st)"
  have r3: "run a st [] [Invoke u k a, Fetch u] ?st3"
    using run_trans[OF run_emit run_emit] by simp
  have ini3: "inited ?st3 i k a" using inited_run[OF ini r3] .
  from url obtain uo where uo: "new_URL e u = Some uo" by blast
  show ?case
  proof (cases "k < maxAttempts os")
    case True
    obtain c st4 where oa: "object_assign i (Some (Suc k)) ?st3 = (c, st4)"
      by (cases "object_assign i (Some (Suc k)) ?st3")
    have ini4: "inited st4 c (Suc k) a" using inited_copy(2)[OF ini3 oa] .
    have "maxAttempts os - Suc k < n" using Suc.prems(2) True by arith
    from Suc.IH[OF ini4 this] obtain st' where
      cr: "crawl n e os u c st4 = Some (Inr EmptyArray, st')"
      and rn: "run a st4 [] (retry_events u a (Suc k) (Suc (maxAttempts os - Suc k))) st'" by blast
    have cnt: "Suc (maxAttempts os - k) = Suc (Suc (maxAttempts os - Suc k))" using True by arith
    have "run a st [] ([Invoke u k a, Fetch u] @ retry_events u a (Suc k) (Suc (maxAttempts os - Suc k))) st'"
      using run_trans[OF run_trans[OF r3 run_object_assign[OF oa]] rn] by simp
    then have "run a st [] (retry_events u a k (Suc (maxAttempts os - k))) st'"
      unfolding cnt by simp
    moreover have "crawl (Suc n) e os u i st = Some (Inr EmptyArray, st')"
      using True uo rej oa cr unfolding crawl_Suc_inited[OF ini] by simp
    ultimately show ?thesis by blast
  next
    case False
    then have "maxAttempts os - k = 0" by simp
    moreover have "crawl (Suc n) e os u i st = Some (Inr EmptyArray, ?st3)"
      using False uo rej unfolding crawl_Suc_inited[OF ini] by simp
    ultimately show ?thesis using r3 by simp
  qed
qed

lemma inited_new_object:
  "new_object st = (i, st1) \<Longrightarrow>
   inited (init_allURLs i (init_attempts i st1)) i 0 (next_arr st)"
  by (auto simp: new_object_def no_fields_def inited_def init_attempts_def init_allURLs_def)

lemma process_links_run:
  "process_links n e os u uo i links items st = Some (r, st') \<Longrightarrow> inited st i k a \<Longrightarrow>
      \<exists>added evs. run a st added evs st' \<and> good a (arrs st a) added evs \<and>
        r \<noteq> Inl FAILED_DOWNLOAD \<and>
        (\<forall>items'. r = Inr items' \<longrightarrow>
           (\<exists>xs. items' = items @ xs \<and> concat (map shape xs) = push_shape evs))"
  by (rule process_links_inv) (rule crawl_inv)

lemma link_action_Visit:
  assumes "new_URL_base e h (absURL @ ''/'') = Some urlObj"
    and "url_href urlObj \<notin> set known"
    and "\<not> failed_regex os (url_href urlObj)"
    and "\<not> inconsistent_host os urlObj absURLObj"
    and "\<not> outside_parent e os urlObj absURLObj"
    and "endsWith_slash h"
  shows "link_action e os absURL absURLObj known (name0, Some h)
           = Visit (url_href urlObj) (link_name name0)"
  using assms by (simp add: link_action_def js_string_def)

lemma crawl_first_event:
  assumes "crawl n e os u i st = Some (r, st')" and "inited st i k a"
  shows "\<exists>rest. trace st' = trace st @ Invoke u k a # rest"
proof (cases n)
  case 0
  with assms show ?thesis by simp
next
  case (Suc m)
  note ini = assms(2)
  note eq = assms(1)[unfolded Suc crawl_Suc_inited[OF ini]]
  let ?st3 = "emit (Fetch u) (emit (Invoke u k a) st)"
  have ini3: "inited ?st3 i k a"
    using inited_run[OF inited_run[OF ini run_emit] run_emit] .
  have ext: "trace st' = trace ?st3 @ evs \<Longrightarrow> \<exists>rest. trace st' = trace st @ Invoke u k a # rest" for evs
    by simp
  show ?thesis
  proof (cases "new_URL e u")
    case None
    with eq show ?thesis by auto
  next
    case (Some uo)
    show ?thesis
    proof (cases "fetch e (requests (trace st)) u")
      case Rejected
      show ?thesis
      proof (cases "k < maxAttempts os")
        case True
        obtain c st4 where oa: "object_assign i (Some (Suc k)) ?st3 = (c, st4)"
          by (cases "object_assign i (Some (Suc k)) ?st3")
        from eq Some Rejected True oa obtain r0 where
          cr: "crawl m e os u c st4 = Some (r0, st')" by (auto split: option.splits)
        from crawl_inv[OF cr inited_copy(2)[OF ini3 oa]] obtain added evs where
          "run a st4 added evs st'" by blast
        with run_object_assign[OF oa, of a] have "trace st' = trace ?st3 @ evs"
          by (simp add: run_def)
        then show ?thesis by (rule ext)
      next
        case False
        with eq Some Rejected show ?thesis by auto
      qed
    next
      case (Response status body)
      show ?thesis
      proof (cases body)
        case None
        with eq Some Response show ?thesis by auto
      next
        case (Some page)
        from eq \<open>new_URL e u = Some uo\<close> Response Some obtain r0 where
          pl: "process_links m e os u uo i (getHTMLLinks e page) [] ?st3 = Some (r0, st')"
          by (auto split: option.splits sum.splits)
        from process_links_run[OF pl ini3] obtain added evs where
          "run a ?st3 added evs st'" by blast
        then have "trace st' = trace ?st3 @ evs" by (simp add: run_def)
        then show ?thesis by (rule ext)
      qed
    qed
  qed
qed

subsection \<open>Status codes\<close>

lemma with_statuses_fields [simp]:
  "new_URL (with_statuses g e) = new_URL e"
  "new_URL_base (with_statuses g e) = new_URL_base e"
  "cheerio_a (with_statuses g e) = cheerio_a e"
  "path_relative (with_statuses g e) = path_relative e"
  "path_isAbsolute (with_statuses g e) = path_isAbsolute e"
  "path_extname (with_statuses g e) = path_extname e"
  "fetch (with_statuses g e) hist u = restatus (g hist u) (fetch e hist u)"
  by (simp_all add: with_statuses_def)

lemma filters_with_statuses [simp]:
  "outside_parent (with_statuses g e) = outside_parent e"
  "bad_extension (with_statuses g e) = bad_extension e"
  by (simp_all add: fun_eq_iff outside_parent_def bad_extension_def)


lemma getHTMLLinks_with_statuses [simp]:
  "getHTMLLinks (with_statuses g e) page = getHTMLLinks e page"
  by (simp add: getHTMLLinks_def)


subsection \<open>What can be thrown\<close>

lemma crawl_never_FAILED_DOWNLOAD:
  "crawl n e os u i st = Some (r, st') \<Longrightarrow> r \<noteq> Inl FAILED_DOWNLOAD"
  by (cases n)
     (auto simp: Let_def catch_handler_never
           split: option.splits fetch_result.splits sum.splits prod.splits if_splits)

lemma crawl_malformed:
  assumes "new_URL e u = None"
  shows "\<exists>st'. crawl (Suc n) e os u i st = Some (Inl ERR_INVALID_URL, st') \<and>
               requests (trace st') = requests (trace st)"
  using assms by (simp add: Let_def init_frame)

subsection \<open>The model of \<open>url\<close> and \<open>path\<close> on the URLs of the scenarios\<close>

lemma resolve_a:
  "node_new_URL_base ''b/'' ''http://host/a//''
     = Some \<lparr>url_href = ''http://host/a//b/'', url_host = ''host'', url_pathname = ''/a//b/''\<rparr>"
  "node_new_URL_base ''c.mp3'' ''http://host/a//''
     = Some \<lparr>url_href = ''http://host/a//c.mp3'', url_host = ''host'', url_pathname = ''/a//c.mp3''\<rparr>"
  "node_new_URL_base ''../escape.mp3'' ''http://host/a//''
     = Some \<lparr>url_href = ''http://host/a/escape.mp3'', url_host = ''host'',
            url_pathname = ''/a/escape.mp3''\<rparr>"
  "node_new_URL_base ''d.mp3'' ''http://host/a//b//''
     = Some \<lparr>url_href = ''http://host/a//b//d.mp3'', url_host = ''host'',
            url_pathname = ''/a//b//d.mp3''\<rparr>"
  by code_simp+

lemma split_slash_not_Nil [simp]: "split_slash s \<noteq> []"
  by (induction s) (auto split: list.splits)

lemma split_slash_append_slash:
  "CHR ''/'' \<notin> set w \<Longrightarrow> split_slash (w @ CHR ''/'' # s) = w # split_slash s"
  by (induction w) (auto split: list.splits)

lemma split_slash_plain: "CHR ''/'' \<notin> set w \<Longrightarrow> split_slash w = [w]"
  by (induction w) (auto split: list.splits)

lemma split_join:
  "ws \<noteq> [] \<Longrightarrow> list_all (\<lambda>w. CHR ''/'' \<notin> set w) ws \<Longrightarrow> split_slash (join_slash ws) = ws"
proof (induction ws rule: join_slash.induct)
  case 1
  then show ?case by simp
next
  case (2 w)
  then show ?case by (simp add: split_slash_plain)
next
  case (3 w v vs)
  then show ?case by (simp add: split_slash_append_slash)
qed

lemma join_slash_snoc:
  "ws \<noteq> [] \<Longrightarrow> join_slash (ws @ [w]) = join_slash ws @ CHR ''/'' # w"
  by (induction ws rule: join_slash.induct) simp_all

lemma path_state_plain:
  "list_all (\<lambda>w. w = [] \<or> w = ''a'') ws \<Longrightarrow> path_state acc ws = acc @ ws"
  by (induction ws arbitrary: acc) auto

lemma normalize_segs_plain:
  "list_all (\<lambda>w. w = [] \<or> w = ''a'') ws \<Longrightarrow>
   normalize_segs acc ws = acc @ filter (\<lambda>w. w \<noteq> []) ws"
  by (induction ws arbitrary: acc) auto

lemma strip_common_Nil [simp]: "strip_common [] ys = ([], ys)"
  by (cases ys) simp_all

lemma strip_common_append: "strip_common xs (xs @ ys) = ([], ys)"
  by (induction xs) simp_all

lemma plain_no_slash: "plain path \<Longrightarrow> list_all (\<lambda>w. CHR ''/'' \<notin> set w) path"
proof -
  assume p: "plain path"
  have "w = [] \<or> w = ''a'' \<Longrightarrow> CHR ''/'' \<notin> set w" for w :: string by fastforce
  then have "\<forall>w \<in> set path. CHR ''/'' \<notin> set w"
    using p unfolding plain_def list_all_iff by blast
  then show ?thesis unfolding list_all_iff .
qed

lemma parse_http_host_url:
  assumes "plain path"
  shows "parse_http (host_url path) = Some (''host'', path)"
proof -
  have "split_slash (join_slash path) = path"
    using split_join plain_no_slash[OF assms] assms by (simp add: plain_def)
  moreover have "path_state [] path = path"
    using path_state_plain[of path "[]"] assms by (simp add: plain_def)
  ultimately show ?thesis by (simp add: parse_http_def host_url_def Let_def)
qed

lemma host_url_slash: "plain path \<Longrightarrow> host_url path @ ''/'' = host_url (path @ [[]])"
  by (simp add: host_url_def plain_def join_slash_snoc)

lemma plain_snoc: "plain path \<Longrightarrow> plain (path @ [[]])" "plain path \<Longrightarrow> plain (path @ [''a'', []])"
  by (simp_all add: plain_def)

lemma new_URL_loop:
  "plain path \<Longrightarrow> new_URL env_loop (host_url path) = Some (serialize ''host'' path)"
  by (simp add: env_loop_def node_env_def node_new_URL_def parse_http_host_url)

lemma new_URL_base_loop:
  assumes "plain path"
  shows "new_URL_base env_loop ''a/'' (host_url path @ ''/'')
           = Some (serialize ''host'' (path @ [''a'', []]))"
proof -
  have 1: "parse_http (host_url path @ ''/'') = Some (''host'', path @ [[]])"
    using parse_http_host_url[OF plain_snoc(1)[OF assms]] host_url_slash[OF assms] by simp
  have 2: "split_slash ''a/'' = [''a'', []]" by simp
  have 3: "path_state path [''a'', []] = path @ [''a'', []]"
    by (rule path_state_plain) simp
  show ?thesis
    by (simp add: env_loop_def node_env_def node_new_URL_base_def 1 3
             del: split_slash.simps path_state.simps)
       (simp add: 3)
qed

lemma href_serialize: "url_href (serialize ''host'' path) = host_url path"
  by (simp add: serialize_def host_url_def)

lemma length_host_url_grows:
  "plain path \<Longrightarrow> length (host_url path) < length (host_url (path @ [''a'', []]))"
  using join_slash_snoc[of "path @ [''a'']" "[]"] join_slash_snoc[of path "''a''"]
  by (simp add: host_url_def plain_def)

lemma relative_loop:
  assumes "plain path"
  shows "node_path_relative (url_pathname (serialize ''host'' path))
           (url_pathname (serialize ''host'' (path @ [''a'', []]))) = ''a''"
proof -
  have s1: "split_slash (CHR ''/'' # join_slash path) = [] # path"
    using split_join plain_no_slash[OF assms] assms by (simp add: plain_def)
  have p2: "plain (path @ [''a'', []])" using plain_snoc(2)[OF assms] .
  have s2: "split_slash (CHR ''/'' # join_slash (path @ [''a'', []])) = [] # path @ [''a'', []]"
    using split_join plain_no_slash[OF p2] p2 by (simp add: plain_def)
  have n1: "normalize_segs [] ([] # path) = filter (\<lambda>w. w \<noteq> []) path"
    using normalize_segs_plain[of "[] # path" "[]"] assms by (simp add: plain_def)
  have n2: "normalize_segs [] ([] # path @ [''a'', []]) = filter (\<lambda>w. w \<noteq> []) path @ [''a'']"
    using normalize_segs_plain[of "[] # path @ [''a'', []]" "[]"] assms by (simp add: plain_def)
  show ?thesis
    by (simp add: node_path_relative_def serialize_def s1 s2 n1 n2 strip_common_append
             del: split_slash.simps normalize_segs.simps)
qed

subsection \<open>A directory that links to itself\<close>

lemma link_action_loop:
  assumes pl: "plain path"
    and short: "\<forall>w \<in> set known. length w \<le> length (host_url path)"
  shows "link_action env_loop default_opts (host_url path) (serialize ''host'' path) known
           (''a/'', Some ''a/'') = Visit (host_url (path @ [''a'', []])) ''a''"
proof -
  let ?v = "serialize ''host'' (path @ [''a'', []])"
  have 1: "new_URL_base env_loop ''a/'' (host_url path @ ''/'') = Some ?v"
    using new_URL_base_loop[OF pl] .
  have 2: "url_href ?v \<notin> set known"
    using short length_host_url_grows[OF pl] by (auto simp: href_serialize)
  have 3: "\<not> failed_regex default_opts (url_href ?v)"
    by (simp add: failed_regex_def default_opts_def)
  have 4: "\<not> inconsistent_host default_opts ?v (serialize ''host'' path)"
    by (simp add: inconsistent_host_def serialize_def)
  have 5: "\<not> outside_parent env_loop default_opts ?v (serialize ''host'' path)"
    using relative_loop[OF pl]
    by (simp add: outside_parent_def env_loop_def node_env_def startsWith_dotdot_def
          node_path_isAbsolute_def)
  have 6: "endsWith_slash ''a/''" by (simp add: endsWith_slash_def)
  have 7: "link_name ''a/'' = ''a''"
    by code_simp
  from link_action_Visit[OF 1 2 3 4 5 6, of "''a/''"] 7 show ?thesis
    by (simp add: href_serialize)
qed

text \<open>On the self-linking server every nesting depth is exceeded, from any URL of the
  chain and any store whose recorded URLs are no longer than that URL.\<close>

lemma loop_diverges:
  "plain path \<Longrightarrow> inited st i k a \<Longrightarrow>
   \<forall>w \<in> set (arrs st a). length w \<le> length (host_url path) \<Longrightarrow>
   crawl n env_loop default_opts (host_url path) i st = None"
proof (induction n arbitrary: path st i k)
  case 0
  show ?case by simp
next
  case (Suc n)
  note pl = \<open>plain path\<close> and ini = \<open>inited st i k a\<close>
  let ?u = "host_url path"
  let ?u' = "host_url (path @ [''a'', []])"
  let ?st3 = "emit (Fetch ?u) (emit (Invoke ?u k a) st)"
  have ini3: "inited ?st3 i k a"
    using inited_run[OF inited_run[OF ini run_emit] run_emit] .
  have rd: "the_allURLs ?st3 i = a" using ini3 by (rule inited_reads)
  have act: "link_action env_loop default_opts ?u (serialize ''host'' path) (arrs ?st3 a)
           (''a/'', Some ''a/'') = Visit ?u' ''a''"
    using link_action_loop[OF pl, of "arrs ?st3 a"] Suc.prems(3) by simp
  obtain c st2 where oa: "object_assign i None (push_URL a ?u' ?st3) = (c, st2)"
    by (cases "object_assign i None (push_URL a ?u' ?st3)")
  have ini1: "inited (push_URL a ?u' ?st3) i k a" using inited_run[OF ini3 run_push] .
  have ini2: "inited st2 c k a" using inited_copy(1)[OF ini1 oa] .
  have a2: "arrs st2 a = arrs st a @ [?u']"
    using run_object_assign[OF oa, of a] by (simp add: run_def push_URL_def)
  have short: "\<forall>w \<in> set (arrs st2 a). length w \<le> length ?u'"
    using Suc.prems(3) length_host_url_grows[OF pl] a2 by auto
  have child: "crawl n env_loop default_opts ?u' c st2 = None"
    using Suc.IH[OF plain_snoc(2)[OF pl] ini2 short] .
  have loop: "process_links n env_loop default_opts ?u (serialize ''host'' path) i
                [(''a/'', Some ''a/'')] [] ?st3 = None"
    unfolding process_links_Cons rd act using oa child by simp
  have links: "getHTMLLinks env_loop ''listing'' = [(''a/'', Some ''a/'')]"
    by (simp add: getHTMLLinks_def env_loop_def node_env_def parse_loop_def listed_def)
  have ft: "fetch env_loop (requests (trace st)) ?u = Response 200 (Some ''listing'')"
    by (simp add: env_loop_def node_env_def srv_loop_def)
  show ?case
    unfolding crawl_Suc_inited[OF ini] using new_URL_loop[OF pl] ft links loop by simp
qed

subsection \<open>Termination on a finite closed set of directories\<close>

lemma link_action_Visit_follows:
  assumes "link_action e os u uo known l = Visit x name"
  shows "\<exists>v. new_URL_base e (js_string (snd l)) (u @ ''/'') = Some v \<and> x = url_href v \<and>
             follows e os uo l v"
  using assms
  by (auto simp: link_action_def follows_def Let_def split: option.splits if_splits)

lemma card_Diff_push:
  assumes "finite U" and "x \<in> U" and "x \<notin> set xs"
  shows "card (U - set (xs @ [x])) < card (U - set xs)"
proof -
  have "U - set (xs @ [x]) \<subset> U - set xs" using assms(2,3) by auto
  then show ?thesis using assms(1) by (simp add: psubset_card_mono)
qed

lemma card_Diff_grow:
  assumes "finite U"
  shows "card (U - set (xs @ ys)) \<le> card (U - set xs)"
  using assms by (intro card_mono) auto

lemma process_links_terminates:
  assumes fin: "finite D"
    and IH: "\<And>u i st k. u \<in> D \<Longrightarrow> inited st i k a \<Longrightarrow>
               card (D - set (arrs st a)) + (maxAttempts os - k) < n \<Longrightarrow>
               crawl n e os u i st \<noteq> None"
  shows "\<forall>l \<in> set links. \<forall>v. new_URL_base e (js_string (snd l)) (u @ ''/'') = Some v \<and>
                               follows e os uo l v \<longrightarrow> url_href v \<in> D \<Longrightarrow>
         inited st i k a \<Longrightarrow>
         card (D - set (arrs st a)) + (maxAttempts os - k) \<le> n \<Longrightarrow>
         process_links n e os u uo i links items st \<noteq> None"
proof (induction links arbitrary: items st)
  case Nil
  show ?case by simp
next
  case (Cons l links)
  note ini = \<open>inited st i k a\<close>
  have rd: "the_allURLs st i = a" using ini by (rule inited_reads)
  have rest: "\<forall>l \<in> set links. \<forall>v. new_URL_base e (js_string (snd l)) (u @ ''/'') = Some v \<and>
                               follows e os uo l v \<longrightarrow> url_href v \<in> D"
    using Cons.prems(1) by simp
  have pushed_ok: "card (D - set (arrs (push_URL a x st) a)) + (maxAttempts os - k) \<le> n" for x
    using card_Diff_grow[OF fin, of "arrs st a" "[x]"] Cons.prems(3)
    by (simp add: push_URL_def)
  show ?case
  proof (cases "link_action e os u uo (arrs st a) l")
    case Throw_early
    then show ?thesis unfolding process_links_Cons rd by simp
  next
    case Seen
    then show ?thesis unfolding process_links_Cons rd
      using Cons.IH[OF rest ini Cons.prems(3)] by simp
  next
    case (Ignored x)
    have ini1: "inited (push_URL a x st) i k a" using inited_run[OF ini run_push] .
    show ?thesis unfolding process_links_Cons rd
      using Ignored Cons.IH[OF rest ini1 pushed_ok] by simp
  next
    case (Throw_late x)
    then show ?thesis unfolding process_links_Cons rd by simp
  next
    case (Visit x name)
    let ?st1 = "push_URL a x st"
    have fresh: "x \<notin> set (arrs st a)" using link_action_fresh[OF Visit] by blast
    from link_action_Visit_follows[OF Visit] obtain v where
      "new_URL_base e (js_string (snd l)) (u @ ''/'') = Some v" "x = url_href v"
      "follows e os uo l v" by blast
    then have xD: "x \<in> D" using Cons.prems(1) by simp
    obtain c st2 where oa: "object_assign i None ?st1 = (c, st2)" by (cases "object_assign i None ?st1")
    have ini1: "inited ?st1 i k a" using inited_run[OF ini run_push] .
    have ini2: "inited st2 c k a" using inited_copy(1)[OF ini1 oa] .
    have ini2': "inited st2 i k a" using inited_run[OF ini1 run_object_assign[OF oa]] .
    have a2: "arrs st2 a = arrs st a @ [x]"
      using run_object_assign[OF oa, of a] by (simp add: run_def push_URL_def)
    have "card (D - set (arrs st2 a)) + (maxAttempts os - k) < n"
      using card_Diff_push[OF fin xD fresh] Cons.prems(3) a2 by simp
    from IH[OF xD ini2 this] obtain rc st3 where cr: "crawl n e os x c st2 = Some (rc, st3)"
      by auto
    show ?thesis
    proof (cases rc)
      case (Inl err)
      with Visit oa cr show ?thesis unfolding process_links_Cons rd by simp
    next
      case (Inr v)
      from crawl_inv[OF cr ini2] obtain ac ec where r3: "run a st2 ac ec st3" by blast
      let ?st4 = "emit (PushDir x) st3"
      have ini4: "inited ?st4 i k a"
        using inited_run[OF inited_run[OF ini2' r3] run_emit] .
      have "arrs ?st4 a = arrs st a @ ([x] @ ac)" using r3 a2 by (simp add: run_def)
      then have "card (D - set (arrs ?st4 a)) + (maxAttempts os - k) \<le> n"
        using card_Diff_grow[OF fin, of "arrs st a" "[x] @ ac"] Cons.prems(3) by simp
      from Cons.IH[OF rest ini4 this] Visit oa cr Inr show ?thesis
        unfolding process_links_Cons rd by simp
    qed
  next
    case (Keep x name)
    let ?st1 = "emit (PushFile x) (push_URL a x st)"
    have ini1: "inited ?st1 i k a" using inited_run[OF inited_run[OF ini run_push] run_emit] .
    have "card (D - set (arrs ?st1 a)) + (maxAttempts os - k) \<le> n"
      using pushed_ok[of x] by simp
    from Cons.IH[OF rest ini1 this] Keep show ?thesis
      unfolding process_links_Cons rd by simp
  qed
qed

lemma crawl_terminates:
  assumes fin: "finite D" and cl: "closed_dirs e os D"
  shows "u \<in> D \<Longrightarrow> inited st i k a \<Longrightarrow>
         card (D - set (arrs st a)) + (maxAttempts os - k) < n \<Longrightarrow>
         crawl n e os u i st \<noteq> None"
proof (induction n arbitrary: u i st k)
  case 0
  then show ?case by simp
next
  case (Suc n)
  note ini = \<open>inited st i k a\<close>
  let ?st3 = "emit (Fetch u) (emit (Invoke u k a) st)"
  have ini3: "inited ?st3 i k a"
    using inited_run[OF inited_run[OF ini run_emit] run_emit] .
  have bound: "card (D - set (arrs ?st3 a)) + (maxAttempts os - k) \<le> n"
    using Suc.prems(3) by simp
  show ?case
  proof (cases "new_URL e u")
    case None
    then show ?thesis unfolding crawl_Suc_inited[OF ini] by simp
  next
    case (Some uo)
    show ?thesis
    proof (cases "fetch e (requests (trace st)) u")
      case Rejected
      show ?thesis
      proof (cases "k < maxAttempts os")
        case True
        obtain c st4 where oa: "object_assign i (Some (Suc k)) ?st3 = (c, st4)"
          by (cases "object_assign i (Some (Suc k)) ?st3")
        have ini4: "inited st4 c (Suc k) a" using inited_copy(2)[OF ini3 oa] .
        have "arrs st4 a = arrs st a" using run_object_assign[OF oa, of a] by (simp add: run_def)
        then have "card (D - set (arrs st4 a)) + (maxAttempts os - Suc k) < n"
          using Suc.prems(3) True by simp
        from Suc.IH[OF Suc.prems(1) ini4 this] Some Rejected True oa show ?thesis
          unfolding crawl_Suc_inited[OF ini] by auto
      next
        case False
        with Some Rejected show ?thesis unfolding crawl_Suc_inited[OF ini] by simp
      qed
    next
      case (Response status body)
      show ?thesis
      proof (cases body)
        case None
        with Some Response show ?thesis unfolding crawl_Suc_inited[OF ini] by simp
      next
        case (Some page)
        have links: "\<forall>l \<in> set (getHTMLLinks e page).
            \<forall>v. new_URL_base e (js_string (snd l)) (u @ ''/'') = Some v \<and> follows e os uo l v
                \<longrightarrow> url_href v \<in> D"
          using cl Suc.prems(1) \<open>new_URL e u = Some uo\<close> Response Some
          unfolding closed_dirs_def by blast
        have "process_links n e os u uo i (getHTMLLinks e page) [] ?st3 \<noteq> None"
          by (rule process_links_terminates[OF fin _ links ini3 bound]) (rule Suc.IH)
        with \<open>new_URL e u = Some uo\<close> Response Some show ?thesis
          unfolding crawl_Suc_inited[OF ini] by (auto split: sum.splits)
      qed
    qed
  qed
qed

lemma closed_dirs_a: "closed_dirs env_a default_opts dirs_a"
  unfolding closed_dirs_def
  by (auto simp: dirs_a_def env_a_def node_env_def srv_a_def getHTMLLinks_def parse_a_def
        listed_def js_string_def resolve_a follows_def endsWith_slash_def split: if_splits)

lemma resolve_up:
  "node_new_URL ''http://host/a/'' = Some root_a"
  "node_new_URL_base ''/'' ''http://host/a//''
     = Some \<lparr>url_href = ''http://host/'', url_host = ''host'', url_pathname = ''/''\<rparr>"
  "outside_parent env_up default_opts
     \<lparr>url_href = ''http://host/'', url_host = ''host'', url_pathname = ''/''\<rparr> root_a"
  by code_simp+

lemma closed_dirs_up: "closed_dirs env_up default_opts {''http://host/a/''}"
  unfolding closed_dirs_def
  by (auto simp: env_up_def node_env_def srv_up_def getHTMLLinks_def parse_up_def
        js_string_def resolve_up follows_def
        resolve_up(3)[unfolded env_up_def node_env_def])

subsection \<open>What a crawl rethrows, and when it returns a tree\<close>

lemma process_links_never_FAILED_DOWNLOAD:
  "process_links n e os u uo i links items st = Some (r, st') \<Longrightarrow> r \<noteq> Inl FAILED_DOWNLOAD"
proof (induction links arbitrary: items st)
  case Nil
  then show ?case by auto
next
  case (Cons l links)
  note eq = Cons.prems[unfolded process_links_Cons]
  show ?case
  proof (cases "link_action e os u uo (arrs st (the_allURLs st i)) l")
    case Throw_early
    with eq show ?thesis by auto
  next
    case Seen
    with eq Cons.IH show ?thesis by simp
  next
    case (Ignored x)
    with eq Cons.IH show ?thesis by simp
  next
    case (Throw_late x)
    with eq show ?thesis by auto
  next
    case (Visit x name)
    obtain c st2 where oa: "object_assign i None (push_URL (the_allURLs st i) x st) = (c, st2)"
      by (cases "object_assign i None (push_URL (the_allURLs st i) x st)")
    from eq Visit oa obtain rc st3 where cr: "crawl n e os x c st2 = Some (rc, st3)"
      by (auto split: option.splits)
    show ?thesis
    proof (cases rc)
      case (Inl err)
      with eq Visit oa cr have "r = Inl err" by simp
      with crawl_never_FAILED_DOWNLOAD[OF cr] Inl show ?thesis by simp
    next
      case (Inr v)
      with eq Visit oa cr Cons.IH show ?thesis by simp
    qed
  next
    case (Keep x name)
    with eq Cons.IH show ?thesis by simp
  qed
qed

lemma crawl_body_error:
  assumes "new_URL e u = Some uo" and "fetch e (requests (trace st)) u = Response s None"
  shows "crawl (Suc n) e os u i st = Some (Inl BodyError, entered u i st)"
  using assms by (simp add: Let_def init_frame entered_def)

lemma crawl_rethrows:
  assumes "new_URL e u = Some uo"
    and "fetch e (requests (trace st)) u = Response s (Some page)"
    and "process_links n e os u uo i (getHTMLLinks e page) [] (entered u i st)
           = Some (Inl err, st1)"
  shows "crawl (Suc n) e os u i st = Some (Inl err, st1)"
proof -
  have "err \<noteq> FAILED_DOWNLOAD"
    using process_links_never_FAILED_DOWNLOAD[OF assms(3)] by simp
  then have "catch_handler (Inl err) = Inl err" by (simp add: catch_handler_other)
  with assms show ?thesis by (simp add: Let_def init_frame entered_def)
qed

lemma process_links_bad_href:
  assumes "new_URL_base e (js_string (snd l)) (u @ ''/'') = None"
  shows "process_links n e os u uo i (l # links) items st = Some (Inl ERR_INVALID_URL, st)"
  using assms unfolding process_links_Cons by (simp add: link_action_def)

lemma process_links_child_error:
  assumes "new_URL_base e (js_string (snd l)) (u @ ''/'') = Some v"
    and "url_href v \<notin> set (arrs st (the_allURLs st i))"
    and "follows e os uo l v"
    and "crawl n e os (url_href v)
           (fst (object_assign i None (push_URL (the_allURLs st i) (url_href v) st)))
           (snd (object_assign i None (push_URL (the_allURLs st i) (url_href v) st)))
         = Some (Inl err, st1)"
  shows "process_links n e os u uo i (l # links) items st = Some (Inl err, st1)"
proof -
  from assms(3) obtain h where h: "snd l = Some h" "endsWith_slash h"
    by (auto simp: follows_def split: option.splits)
  have "link_action e os u uo (arrs st (the_allURLs st i)) l
          = Visit (url_href v) (link_name (fst l))"
    using assms(1,2,3) h by (simp add: link_action_def follows_def)
  moreover obtain c st2 where
    oa: "object_assign i None (push_URL (the_allURLs st i) (url_href v) st) = (c, st2)"
    by (cases "object_assign i None (push_URL (the_allURLs st i) (url_href v) st)")
  moreover have "crawl n e os (url_href v) c st2 = Some (Inl err, st1)"
    using assms(4) oa by simp
  ultimately show ?thesis unfolding process_links_Cons by simp
qed

lemma process_links_sound:
  assumes IH: "\<And>u i st r st' k. crawl n e os u i st = Some (r, st') \<Longrightarrow> inited st i k a \<Longrightarrow>
               u \<in> D \<Longrightarrow> \<exists>v. r = Inr v"
  shows "process_links n e os u uo i links items st = Some (r, st') \<Longrightarrow> inited st i k a \<Longrightarrow>
         \<forall>l \<in> set links. snd l \<noteq> None \<and>
            new_URL_base e (js_string (snd l)) (u @ ''/'') \<noteq> None \<and>
            (\<forall>v. new_URL_base e (js_string (snd l)) (u @ ''/'') = Some v \<and> follows e os uo l v
                 \<longrightarrow> url_href v \<in> D) \<Longrightarrow>
         \<exists>v. r = Inr v"
proof (induction links arbitrary: items st)
  case Nil
  then show ?case by auto
next
  case (Cons l links)
  note ini = \<open>inited st i k a\<close>
  have rd: "the_allURLs st i = a" using ini by (rule inited_reads)
  note eq = Cons.prems(1)[unfolded process_links_Cons rd]
  have rest: "\<forall>l \<in> set links. snd l \<noteq> None \<and>
            new_URL_base e (js_string (snd l)) (u @ ''/'') \<noteq> None \<and>
            (\<forall>v. new_URL_base e (js_string (snd l)) (u @ ''/'') = Some v \<and> follows e os uo l v
                 \<longrightarrow> url_href v \<in> D)"
    using Cons.prems(3) by simp
  have here: "snd l \<noteq> None" "new_URL_base e (js_string (snd l)) (u @ ''/'') \<noteq> None"
    using Cons.prems(3) by simp_all
  show ?case
  proof (cases "link_action e os u uo (arrs st a) l")
    case Throw_early
    with here show ?thesis by (auto simp: link_action_def Let_def split: option.splits if_splits)
  next
    case Seen
    with eq have "process_links n e os u uo i links items st = Some (r, st')" by simp
    from Cons.IH[OF this ini rest] show ?thesis .
  next
    case (Ignored x)
    have ini1: "inited (push_URL a x st) i k a" using inited_run[OF ini run_push] .
    from eq Ignored have "process_links n e os u uo i links items (push_URL a x st) = Some (r, st')"
      by simp
    from Cons.IH[OF this ini1 rest] show ?thesis .
  next
    case (Throw_late x)
    with here show ?thesis by (auto simp: link_action_def Let_def split: option.splits if_splits)
  next
    case (Visit x name)
    let ?st1 = "push_URL a x st"
    obtain c st2 where oa: "object_assign i None ?st1 = (c, st2)" by (cases "object_assign i None ?st1")
    have ini1: "inited ?st1 i k a" using inited_run[OF ini run_push] .
    have ini2: "inited st2 c k a" using inited_copy(1)[OF ini1 oa] .
    have ini2': "inited st2 i k a" using inited_run[OF ini1 run_object_assign[OF oa]] .
    from link_action_Visit_follows[OF Visit] obtain v where
      "new_URL_base e (js_string (snd l)) (u @ ''/'') = Some v" "x = url_href v"
      "follows e os uo l v" by blast
    then have xD: "x \<in> D" using Cons.prems(3) by simp
    from eq Visit oa obtain rc st3 where cr: "crawl n e os x c st2 = Some (rc, st3)"
      by (auto split: option.splits)
    from IH[OF cr ini2 xD] obtain v where rc: "rc = Inr v" by blast
    from crawl_inv[OF cr ini2] obtain ac ec where r3: "run a st2 ac ec st3" by blast
    have ini4: "inited (emit (PushDir x) st3) i k a"
      using inited_run[OF inited_run[OF ini2' r3] run_emit] .
    from eq Visit oa cr rc have
      "process_links n e os u uo i links (items @ [Dir name (destructure_items v)])
         (emit (PushDir x) st3) = Some (r, st')" by simp
    from Cons.IH[OF this ini4 rest] show ?thesis .
  next
    case (Keep x name)
    have ini1: "inited (emit (PushFile x) (push_URL a x st)) i k a"
      using inited_run[OF inited_run[OF ini run_push] run_emit] .
    from eq Keep have "process_links n e os u uo i links (items @ [File name x])
        (emit (PushFile x) (push_URL a x st)) = Some (r, st')" by simp
    from Cons.IH[OF this ini1 rest] show ?thesis .
  qed
qed

lemma crawl_sound:
  assumes sd: "sound_dirs e os D"
  shows "crawl n e os u i st = Some (r, st') \<Longrightarrow> inited st i k a \<Longrightarrow> u \<in> D \<Longrightarrow>
         \<exists>v. r = Inr v"
proof (induction n arbitrary: u i st r st' k)
  case 0
  then show ?case by simp
next
  case (Suc n)
  note ini = \<open>inited st i k a\<close>
  note eq = Suc.prems(1)[unfolded crawl_Suc_inited[OF ini]]
  let ?st3 = "emit (Fetch u) (emit (Invoke u k a) st)"
  have ini3: "inited ?st3 i k a"
    using inited_run[OF inited_run[OF ini run_emit] run_emit] .
  from sd Suc.prems(3) obtain uo where uo: "new_URL e u = Some uo"
    unfolding sound_dirs_def by blast
  show ?case
  proof (cases "fetch e (requests (trace st)) u")
    case Rejected
    show ?thesis
    proof (cases "k < maxAttempts os")
      case True
      obtain c st4 where oa: "object_assign i (Some (Suc k)) ?st3 = (c, st4)"
        by (cases "object_assign i (Some (Suc k)) ?st3")
      from eq uo Rejected True oa obtain r0 where
        cr: "crawl n e os u c st4 = Some (r0, st')" and rr: "r = catch_handler r0"
        by (auto split: option.splits)
      from Suc.IH[OF cr inited_copy(2)[OF ini3 oa] Suc.prems(3)] obtain v where "r0 = Inr v" by blast
      with rr show ?thesis by simp
    next
      case False
      with eq uo Rejected show ?thesis by auto
    qed
  next
    case (Response status body)
    from sd Suc.prems(3) Response obtain page where body: "body = Some page"
      unfolding sound_dirs_def by (cases body) blast+
    have links: "\<forall>l \<in> set (getHTMLLinks e page). snd l \<noteq> None \<and>
            new_URL_base e (js_string (snd l)) (u @ ''/'') \<noteq> None \<and>
            (\<forall>v. new_URL_base e (js_string (snd l)) (u @ ''/'') = Some v \<and> follows e os uo l v
                 \<longrightarrow> url_href v \<in> D)"
    proof (intro ballI conjI allI impI)
      fix l assume l: "l \<in> set (getHTMLLinks e page)"
      from sd Suc.prems(3) Response body l
      show "snd l \<noteq> None" "new_URL_base e (js_string (snd l)) (u @ ''/'') \<noteq> None"
        unfolding sound_dirs_def by blast+
      fix v assume "new_URL_base e (js_string (snd l)) (u @ ''/'') = Some v \<and> follows e os uo l v"
      with sd Suc.prems(3) Response body l uo show "url_href v \<in> D"
        unfolding sound_dirs_def closed_dirs_def by blast
    qed
    from eq uo Response body obtain r1 where
      pl: "process_links n e os u uo i (getHTMLLinks e page) [] ?st3 = Some (r1, st')"
      by (auto split: option.splits sum.splits)
    have "\<exists>v. r1 = Inr v"
      by (rule process_links_sound[OF _ pl ini3 links]) (rule Suc.IH)
    with eq uo Response body pl show ?thesis by auto
  qed
qed

lemma sound_dirs_a: "sound_dirs env_a default_opts dirs_a"
proof -
  have 1: "\<forall>u. u \<in> dirs_a \<longrightarrow> new_URL env_a u \<noteq> None"
  proof -
    have "new_URL env_a ''http://host/a/'' \<noteq> None" "new_URL env_a ''http://host/a//b/'' \<noteq> None"
      by code_simp+
    then show ?thesis by (simp add: dirs_a_def)
  qed
  have 2: "\<forall>hist u s. u \<in> dirs_a \<longrightarrow> fetch env_a hist u \<noteq> Response s None"
    by (simp add: dirs_a_def env_a_def node_env_def srv_a_def)
  have 3: "\<forall>hist u s page l.
        u \<in> dirs_a \<and> fetch env_a hist u = Response s (Some page) \<and>
        l \<in> set (getHTMLLinks env_a page)
        \<longrightarrow> snd l \<noteq> None \<and> new_URL_base env_a (js_string (snd l)) (u @ ''/'') \<noteq> None"
    by (auto simp: dirs_a_def env_a_def node_env_def srv_a_def getHTMLLinks_def parse_a_def
          listed_def js_string_def resolve_a split: if_splits)
  from closed_dirs_a 1 2 3 show ?thesis unfolding sound_dirs_def by blast
qed

section \<open>The claims\<close>

text \<open>
  Claim C6. The array \<open>internals.allURLs\<close> is shared by reference by every nested call
  of a run: each entry into \<open>crawl\<close> holds the very array the outermost call holds, and
  that array only grows, so a URL recorded anywhere is seen by every later check. The
  URLs the run records are new and pairwise different, every \<open>items.push\<close> has one of
  them for itself, and the entries of the tree returned are the pushed entries, one for
  each push and in the order of the pushes, each file with the URL of its push. So no
  resolved URL stands for two entries of the tree.
\<close>

theorem visited_shared_no_duplicates:
  assumes "crawl n e os u i st = Some (r, st')" and "i < next_obj st"
  shows "list_all (shares (the_allURLs st' i)) (events_since st st') \<and>
         (\<exists>added. known_URLs st' i = known_URLs st i @ added \<and> distinct added \<and>
            set added \<inter> set (known_URLs st i) = {} \<and>
            set (pushed (events_since st st')) \<subseteq> set added) \<and>
         distinct (pushed (events_since st st')) \<and>
         (\<forall>v. r = Inr v \<longrightarrow>
            value_shape v = push_shape (events_since st st') \<and>
            length (value_shape v) = length (pushed (events_since st st')))"
proof -
  let ?st1 = "init_allURLs i (init_attempts i st)"
  let ?k = "the_attempts ?st1 i"
  let ?a = "the_allURLs ?st1 i"
  have ini: "inited ?st1 i ?k ?a" using inited_after_init[OF assms(2)] .
  have cr: "crawl n e os u i ?st1 = Some (r, st')" using crawl_init[OF assms(2)] assms(1) by simp
  from crawl_inv[OF cr ini] obtain added evs where
    rn: "run ?a ?st1 added evs st'" and gd: "good ?a (arrs ?st1 ?a) added evs"
    and v: "\<forall>v. r = Inr v \<longrightarrow>
           value_shape v = push_shape evs" by blast
  have ev: "events_since st st' = evs"
    using events_since_run[OF rn] by (simp add: events_since_def init_frame)
  have ini': "inited st' i ?k ?a" using inited_run[OF ini rn] .
  have a': "the_allURLs st' i = ?a" using inited_reads(2)[OF ini'] .
  have k': "known_URLs st' i = known_URLs st i @ added"
    using rn ini' by (simp add: known_URLs_def inited_def run_def init_frame)
  show ?thesis using gd v ev a' k' by (auto simp: good_def init_frame length_push_shape)
qed

theorem visited_shared_no_duplicates_witness:
  "\<exists>r st'.
     crawl 3 env_a default_opts ''http://host/a/'' 0 (snd (new_object store0)) = Some (r, st') \<and>
     0 < next_obj (snd (new_object store0)) \<and>
     list_all (shares (the_allURLs st' 0)) (events_since (snd (new_object store0)) st') \<and>
     distinct (pushed (events_since (snd (new_object store0)) st')) \<and>
     value_shape (Items [Dir ''b'' (Some [File ''d.mp3'' ''http://host/a//b//d.mp3'']),
                        File ''c.mp3'' ''http://host/a//c.mp3'',
                        File ''../escape.mp3'' ''http://host/a/escape.mp3''])
       = push_shape (events_since (snd (new_object store0)) st')"
proof -
  let ?s0 = "snd (new_object store0)"
  have "map_option fst (crawl 3 env_a default_opts ''http://host/a/'' 0 ?s0) =
     Some (Inr (Items [Dir ''b'' (Some [File ''d.mp3'' ''http://host/a//b//d.mp3'']),
                        File ''c.mp3'' ''http://host/a//c.mp3'',
                        File ''../escape.mp3'' ''http://host/a/escape.mp3'']))"
    by code_simp
  then obtain st' where eq: "crawl 3 env_a default_opts ''http://host/a/'' 0 ?s0 =
     Some (Inr (Items [Dir ''b'' (Some [File ''d.mp3'' ''http://host/a//b//d.mp3'']),
                        File ''c.mp3'' ''http://host/a//c.mp3'',
                        File ''../escape.mp3'' ''http://host/a/escape.mp3'']), st')"
    by auto
  have lt: "0 < next_obj ?s0" by (simp add: new_object_def store0_def)
  from visited_shared_no_duplicates[OF eq lt] eq lt show ?thesis by blast
qed

text \<open>
  Claim C1. With \<open>maxAttempts = m\<close> and a \<open>fetch\<close> that is rejected on every call for
  the URL, a crawl of that URL is to issue exactly \<open>m\<close> fetches and then return
  \<open>{items: []}\<close>. The code does not: the counter starts at 0 and the retry is taken
  while \<open>attempts < maxAttempts\<close>, so \<open>fetch\<close> is called \<open>m + 1\<close> times, and the promise
  resolves to the bare array \<open>[]\<close> of line 146, not to an object with \<open>items\<close>.
\<close>

theorem retry_exhaustion_fetches:
  assumes "\<forall>hist. fetch e hist u = Rejected" and "new_URL e u \<noteq> None"
    and "maxAttempts os < n"
  shows "\<exists>st'. crawl2 n e os u st = Some (Inr EmptyArray, st') \<and>
           requests (events_since st st') = replicate (Suc (maxAttempts os)) u"
proof -
  obtain i st1 where no: "new_object st = (i, st1)" by (cases "new_object st")
  let ?st2 = "init_allURLs i (init_attempts i st1)"
  have lt: "i < next_obj st1" using no by (auto simp: new_object_def)
  have ini: "inited ?st2 i 0 (next_arr st)" using inited_new_object[OF no] by simp
  have tr: "trace ?st2 = trace st" using no by (auto simp: init_frame new_object_def)
  from retry_exhaustion[OF assms(1,2) ini, of os n] assms(3) obtain st' where
    cr: "crawl n e os u i ?st2 = Some (Inr EmptyArray, st')"
    and rn: "run (next_arr st) ?st2 [] (retry_events u (next_arr st) 0 (Suc (maxAttempts os))) st'"
    by auto
  have "crawl2 n e os u st = Some (Inr EmptyArray, st')"
    using cr crawl_init[OF lt] no by (simp add: crawl2_def)
  moreover have "events_since st st' = retry_events u (next_arr st) 0 (Suc (maxAttempts os))"
    using events_since_run[OF rn] tr by (simp add: events_since_def)
  ultimately show ?thesis by simp
qed

theorem retry_exhaustion_fetches_witness:
  "\<exists>st'. crawl2 6 (node_env (\<lambda>hist u. Rejected) parse_a) default_opts ''http://host/a/'' store0
           = Some (Inr EmptyArray, st') \<and>
         requests (events_since store0 st') = replicate 6 ''http://host/a/''"
proof -
  have 1: "\<forall>hist. fetch (node_env (\<lambda>hist u. Rejected) parse_a) hist ''http://host/a/'' = Rejected"
    by (simp add: node_env_def)
  have 2: "new_URL (node_env (\<lambda>hist u. Rejected) parse_a) ''http://host/a/'' \<noteq> None"
    by code_simp
  have 3: "maxAttempts default_opts < 6" by (simp add: default_opts_def)
  from retry_exhaustion_fetches[OF 1 2 3, of store0] show ?thesis
    by (simp add: default_opts_def)
qed

text \<open>
  Claim C9. A link that passes the filters and ends in a slash, and whose URL cannot
  be fetched on any attempt: the iteration pushes the entry \<open>{name, items}\<close> with the
  link's label and \<open>items\<close> undefined, and goes on with the remaining links; whatever
  list the loop returns has that entry at the link's position.
\<close>

theorem failed_directory_keeps_entry:
  assumes "new_URL_base e h (absURL @ ''/'') = Some urlObj"
    and "url_href urlObj \<notin> set (arrs st a)"
    and "\<not> failed_regex os (url_href urlObj)"
    and "\<not> inconsistent_host os urlObj absURLObj"
    and "\<not> outside_parent e os urlObj absURLObj"
    and "endsWith_slash h"
    and "\<forall>hist. fetch e hist (url_href urlObj) = Rejected"
    and "new_URL e (url_href urlObj) \<noteq> None"
    and "inited st i k a" and "maxAttempts os - k < n"
  shows "(\<exists>st1. process_links n e os absURL absURLObj i ((name0, Some h) # links) items st
            = process_links n e os absURL absURLObj i links
                (items @ [Dir (link_name name0) None]) st1) \<and>
         (\<forall>items' st'.
            process_links n e os absURL absURLObj i ((name0, Some h) # links) items st
              = Some (Inr items', st') \<longrightarrow>
            take (Suc (length items)) items' = items @ [Dir (link_name name0) None])"
proof -
  let ?u = "url_href urlObj"
  note ini = \<open>inited st i k a\<close>
  have act: "link_action e os absURL absURLObj (arrs st a) (name0, Some h)
               = Visit ?u (link_name name0)"
    using link_action_Visit[OF assms(1-6)] .
  obtain c st2 where oa: "object_assign i None (push_URL a ?u st) = (c, st2)"
    by (cases "object_assign i None (push_URL a ?u st)")
  have ini1: "inited (push_URL a ?u st) i k a" using inited_run[OF ini run_push] .
  have ini2: "inited st2 c k a" using inited_copy(1)[OF ini1 oa] .
  have ini2': "inited st2 i k a" using inited_run[OF ini1 run_object_assign[OF oa]] .
  from retry_exhaustion[OF assms(7,8) ini2 assms(10)] obtain st3 where
    cr: "crawl n e os ?u c st2 = Some (Inr EmptyArray, st3)"
    and rn: "run a st2 [] (retry_events ?u a k (Suc (maxAttempts os - k))) st3" by blast
  have eq: "process_links n e os absURL absURLObj i ((name0, Some h) # links) items st
      = process_links n e os absURL absURLObj i links
          (items @ [Dir (link_name name0) None]) (emit (PushDir ?u) st3)"
    unfolding process_links_Cons inited_reads(2)[OF ini] act using oa cr by simp
  have ini3: "inited (emit (PushDir ?u) st3) i k a"
    using inited_run[OF inited_run[OF ini2' rn] run_emit] .
  have "\<forall>items' st'.
      process_links n e os absURL absURLObj i ((name0, Some h) # links) items st
        = Some (Inr items', st') \<longrightarrow>
      take (Suc (length items)) items' = items @ [Dir (link_name name0) None]"
  proof (intro allI impI)
    fix items' st'
    assume "process_links n e os absURL absURLObj i ((name0, Some h) # links) items st
        = Some (Inr items', st')"
    then have "process_links n e os absURL absURLObj i links
          (items @ [Dir (link_name name0) None]) (emit (PushDir ?u) st3) = Some (Inr items', st')"
      using eq by simp
    from process_links_run[OF this ini3] obtain xs where
      "items' = (items @ [Dir (link_name name0) None]) @ xs" by blast
    then show "take (Suc (length items)) items' = items @ [Dir (link_name name0) None]" by simp
  qed
  with eq show ?thesis by blast
qed

theorem failed_directory_keeps_entry_witness:
  "(\<exists>st1. process_links 6 (node_env srv_b_down parse_a) default_opts ''http://host/a/'' root_a 0
            [(''b/'', Some ''b/''), (''c.mp3'', Some ''c.mp3'')] [] st_a
          = process_links 6 (node_env srv_b_down parse_a) default_opts ''http://host/a/'' root_a 0
            [(''c.mp3'', Some ''c.mp3'')] ([] @ [Dir (link_name ''b/'') None]) st1) \<and>
   map_option fst (crawl2 7 (node_env srv_b_down parse_a) default_opts ''http://host/a/'' store0)
     = Some (Inr (Items [Dir ''b'' None, File ''c.mp3'' ''http://host/a//c.mp3'',
                         File ''../escape.mp3'' ''http://host/a/escape.mp3'']))"
proof -
  let ?e = "node_env srv_b_down parse_a"
  let ?uo = "\<lparr>url_href = ''http://host/a//b/'', url_host = ''host'', url_pathname = ''/a//b/''\<rparr>"
  have 1: "new_URL_base ?e ''b/'' (''http://host/a/'' @ ''/'') = Some ?uo" by code_simp
  have 2: "url_href ?uo \<notin> set (arrs st_a 0)"
    by (simp add: st_a_def init_allURLs_def init_attempts_def new_object_def store0_def no_fields_def)
  have 3: "\<not> failed_regex default_opts (url_href ?uo)" by code_simp
  have 4: "\<not> inconsistent_host default_opts ?uo root_a" by code_simp
  have 5: "\<not> outside_parent ?e default_opts ?uo root_a" by code_simp
  have 6: "endsWith_slash ''b/''" by code_simp
  have 7: "\<forall>hist. fetch ?e hist (url_href ?uo) = Rejected"
    by (simp add: node_env_def srv_b_down_def)
  have 8: "new_URL ?e (url_href ?uo) \<noteq> None" by code_simp
  have 9: "inited st_a 0 0 0"
    by (simp add: inited_def st_a_def init_allURLs_def init_attempts_def new_object_def store0_def no_fields_def)
  have 10: "maxAttempts default_opts - 0 < 6" by (simp add: default_opts_def)
  have 11: "map_option fst (crawl2 7 ?e default_opts ''http://host/a/'' store0)
     = Some (Inr (Items [Dir ''b'' None, File ''c.mp3'' ''http://host/a//c.mp3'',
                         File ''../escape.mp3'' ''http://host/a/escape.mp3'']))"
    by code_simp
  from failed_directory_keeps_entry[OF 1 2 3 4 5 6 7 8 9 10, of "''b/''" "[(''c.mp3'', Some ''c.mp3'')]" "[]"] 11
  show ?thesis by blast
qed

text \<open>
  Claim C10. \<open>crawl\<close> writes to the \<open>internals\<close> object of its caller: called with an
  object without fields, it leaves \<open>attempts = 0\<close> and \<open>allURLs\<close>, a reference to a new
  array, on that very object, and the array holds every URL the run pushed an entry
  for. A second top-level call with the same object therefore starts with the counter
  at 0 and with that array: each of its nested calls shares it, it only appends to it,
  and it pushes no entry for a URL the first run recorded.
\<close>

theorem crawl_writes_callers_internals:
  assumes "crawl n e os u i st = Some (r, st')" and "i < next_obj st"
    and "objs st i = no_fields"
  shows "objs st' i = \<lparr>attempts = Some 0, allURLs = Some (next_arr st)\<rparr> \<and>
         set (pushed (events_since st st')) \<subseteq> set (arrs st' (next_arr st)) \<and>
         (\<forall>n2 e2 os2 u2 r2 st2.
            crawl n2 e2 os2 u2 i st' = Some (r2, st2) \<longrightarrow>
            take 1 (events_since st' st2) = [Invoke u2 0 (next_arr st)] \<and>
            list_all (shares (next_arr st)) (events_since st' st2) \<and>
            (\<exists>added. arrs st2 (next_arr st) = arrs st' (next_arr st) @ added \<and>
               set (pushed (events_since st' st2)) \<subseteq> set added \<and>
               set added \<inter> set (arrs st' (next_arr st)) = {}))"
proof -
  let ?st1 = "init_allURLs i (init_attempts i st)"
  let ?a = "next_arr st"
  have ini: "inited ?st1 i 0 ?a"
    using assms(2,3) by (auto simp: inited_def no_fields_def init_attempts_def init_allURLs_def)
  have a1: "arrs ?st1 ?a = []"
    using assms(3) by (auto simp: no_fields_def init_attempts_def init_allURLs_def)
  have cr: "crawl n e os u i ?st1 = Some (r, st')" using crawl_init[OF assms(2)] assms(1) by simp
  from crawl_inv[OF cr ini] obtain added evs where
    rn: "run ?a ?st1 added evs st'" and gd: "good ?a (arrs ?st1 ?a) added evs" by blast
  have ini': "inited st' i 0 ?a" using inited_run[OF ini rn] .
  have obj: "objs st' i = \<lparr>attempts = Some 0, allURLs = Some ?a\<rparr>"
    using ini' by (cases "objs st' i") (simp add: inited_def)
  have ev: "events_since st st' = evs"
    using events_since_run[OF rn] by (simp add: events_since_def init_frame)
  have arr: "arrs st' ?a = added" using rn a1 by (simp add: run_def)
  have first: "set (pushed (events_since st st')) \<subseteq> set (arrs st' ?a)"
    using gd ev arr by (simp add: good_def)
  have second: "\<forall>n2 e2 os2 u2 r2 st2.
            crawl n2 e2 os2 u2 i st' = Some (r2, st2) \<longrightarrow>
            take 1 (events_since st' st2) = [Invoke u2 0 ?a] \<and>
            list_all (shares ?a) (events_since st' st2) \<and>
            (\<exists>added. arrs st2 ?a = arrs st' ?a @ added \<and>
               set (pushed (events_since st' st2)) \<subseteq> set added \<and>
               set added \<inter> set (arrs st' ?a) = {})"
  proof (intro allI impI)
    fix n2 e2 os2 u2 r2 st2
    assume c2: "crawl n2 e2 os2 u2 i st' = Some (r2, st2)"
    from crawl_inv[OF c2 ini'] obtain added2 evs2 where
      rn2: "run ?a st' added2 evs2 st2" and gd2: "good ?a (arrs st' ?a) added2 evs2" by blast
    from crawl_first_event[OF c2 ini'] obtain rest where
      tr: "trace st2 = trace st' @ Invoke u2 0 ?a # rest" by blast
    have ev2: "events_since st' st2 = evs2" using events_since_run[OF rn2] .
    have "take 1 (events_since st' st2) = [Invoke u2 0 ?a]"
      using tr by (simp add: events_since_def)
    moreover have "list_all (shares ?a) (events_since st' st2)"
      using gd2 ev2 by (simp add: good_def)
    moreover have "arrs st2 ?a = arrs st' ?a @ added2 \<and>
               set (pushed (events_since st' st2)) \<subseteq> set added2 \<and>
               set added2 \<inter> set (arrs st' ?a) = {}"
      using rn2 gd2 ev2 by (simp add: good_def run_def)
    ultimately show "take 1 (events_since st' st2) = [Invoke u2 0 ?a] \<and>
            list_all (shares ?a) (events_since st' st2) \<and>
            (\<exists>added. arrs st2 ?a = arrs st' ?a @ added \<and>
               set (pushed (events_since st' st2)) \<subseteq> set added \<and>
               set added \<inter> set (arrs st' ?a) = {})" by blast
  qed
  from obj first second show ?thesis by blast
qed

text \<open>Two top-level crawls of the same directory with one \<open>internals\<close> object: the second
  finds every link recorded and returns no entry.\<close>

theorem crawl_writes_callers_internals_witness:
  "\<exists>r st'. crawl 3 env_a default_opts ''http://host/a/'' 0 (snd (new_object store0)) = Some (r, st') \<and>
      objs st' 0 = \<lparr>attempts = Some 0, allURLs = Some 0\<rparr> \<and>
      (\<exists>r2 st2. crawl 3 env_a default_opts ''http://host/a/'' 0 st' = Some (r2, st2) \<and>
         r2 = Inr (Items []) \<and>
         take 1 (events_since st' st2) = [Invoke ''http://host/a/'' 0 0])"
proof -
  let ?s0 = "snd (new_object store0)"
  have "\<not> Option.is_none (crawl 3 env_a default_opts ''http://host/a/'' 0 ?s0)" by code_simp
  then obtain r st' where eq: "crawl 3 env_a default_opts ''http://host/a/'' 0 ?s0 = Some (r, st')"
    by (auto simp: Option.is_none_def)
  have lt: "0 < next_obj ?s0" by (simp add: new_object_def store0_def)
  have nf: "objs ?s0 0 = no_fields" by (simp add: new_object_def store0_def)
  have na: "next_arr ?s0 = 0" by (simp add: new_object_def store0_def)
  have "map_option fst (case crawl 3 env_a default_opts ''http://host/a/'' 0 ?s0 of
            None \<Rightarrow> None
          | Some (r, st') \<Rightarrow> crawl 3 env_a default_opts ''http://host/a/'' 0 st') = Some (Inr (Items []))"
    by code_simp
  with eq obtain st2 where eq2:
    "crawl 3 env_a default_opts ''http://host/a/'' 0 st' = Some (Inr (Items []), st2)"
    by auto
  from crawl_writes_callers_internals[OF eq lt nf] eq eq2 na show ?thesis
    by auto
qed

text \<open>
  Claim C2. The crawl of a subdirectory is to start with the shared array and with an
  attempt counter of 0. The array is shared, but the counter is not reset: the child
  gets \<open>Object.assign({}, internals)\<close>, a copy that carries the \<open>attempts\<close> of the call
  whose loop is running, and this is the number of retries that call's own fetch
  needed. The first event of the iteration is the child's entry with that counter.
\<close>

theorem child_inherits_attempts:
  assumes "new_URL_base e h (absURL @ ''/'') = Some urlObj"
    and "url_href urlObj \<notin> set (arrs st a)"
    and "\<not> failed_regex os (url_href urlObj)"
    and "\<not> inconsistent_host os urlObj absURLObj"
    and "\<not> outside_parent e os urlObj absURLObj"
    and "endsWith_slash h"
    and "inited st i k a"
    and "process_links n e os absURL absURLObj i ((name0, Some h) # links) items st
           = Some (r, st')"
  shows "take 1 (events_since st st') = [Invoke (url_href urlObj) k a]"
proof -
  let ?u = "url_href urlObj"
  note ini = \<open>inited st i k a\<close>
  have act: "link_action e os absURL absURLObj (arrs st a) (name0, Some h)
               = Visit ?u (link_name name0)"
    using link_action_Visit[OF assms(1-6)] .
  obtain c st2 where oa: "object_assign i None (push_URL a ?u st) = (c, st2)"
    by (cases "object_assign i None (push_URL a ?u st)")
  have ini1: "inited (push_URL a ?u st) i k a" using inited_run[OF ini run_push] .
  have ini2: "inited st2 c k a" using inited_copy(1)[OF ini1 oa] .
  have ini2': "inited st2 i k a" using inited_run[OF ini1 run_object_assign[OF oa]] .
  have t2: "trace st2 = trace st"
    using run_trans[OF run_push run_object_assign[OF oa]] by (simp add: run_def)
  note eq = assms(8)[unfolded process_links_Cons inited_reads(2)[OF ini] act]
  from eq oa obtain rc st3 where cr: "crawl n e os ?u c st2 = Some (rc, st3)"
    by (auto split: option.splits)
  from crawl_first_event[OF cr ini2] obtain rest where
    t3: "trace st3 = trace st @ Invoke ?u k a # rest" using t2 by auto
  from crawl_inv[OF cr ini2] obtain ac ec where r3: "run a st2 ac ec st3" by blast
  have "\<exists>more. trace st' = trace st3 @ more"
  proof (cases rc)
    case (Inl err)
    with eq oa cr show ?thesis by simp
  next
    case (Inr v)
    with eq oa cr have pl: "process_links n e os absURL absURLObj i links
        (items @ [Dir (link_name name0) (destructure_items v)]) (emit (PushDir ?u) st3)
        = Some (r, st')" by simp
    have "inited (emit (PushDir ?u) st3) i k a"
      using inited_run[OF inited_run[OF ini2' r3] run_emit] .
    from process_links_run[OF pl this] obtain added evs where
      "run a (emit (PushDir ?u) st3) added evs st'" by blast
    then show ?thesis by (simp add: run_def)
  qed
  with t3 show ?thesis by (auto simp: events_since_def)
qed

text \<open>A first fetch that is rejected: the directory \<open>b/\<close> is entered with the counter
  at 1.\<close>

theorem child_inherits_attempts_witness:
  "(\<exists>r st'. process_links 2 (node_env srv_flaky parse_a) default_opts ''http://host/a/'' root_a 1
        [(''b/'', Some ''b/'')] [] st_retried = Some (r, st') \<and>
      take 1 (events_since st_retried st') = [Invoke ''http://host/a//b/'' 1 0]) \<and>
   map_option (\<lambda>(r, st). take 6 (trace st))
      (crawl2 4 (node_env srv_flaky parse_a) default_opts ''http://host/a/'' store0)
     = Some [Invoke ''http://host/a/'' 0 0, Fetch ''http://host/a/'',
             Invoke ''http://host/a/'' 1 0, Fetch ''http://host/a/'',
             Invoke ''http://host/a//b/'' 1 0, Fetch ''http://host/a//b/'']"
proof -
  let ?e = "node_env srv_flaky parse_a"
  let ?uo = "\<lparr>url_href = ''http://host/a//b/'', url_host = ''host'', url_pathname = ''/a//b/''\<rparr>"
  have 1: "new_URL_base ?e ''b/'' (''http://host/a/'' @ ''/'') = Some ?uo" by code_simp
  have 2: "url_href ?uo \<notin> set (arrs st_retried 0)"
    by (simp add: st_retried_def st_a_def object_assign_def init_allURLs_def init_attempts_def
          new_object_def store0_def no_fields_def)
  have 3: "\<not> failed_regex default_opts (url_href ?uo)" by code_simp
  have 4: "\<not> inconsistent_host default_opts ?uo root_a" by code_simp
  have 5: "\<not> outside_parent ?e default_opts ?uo root_a" by code_simp
  have 6: "endsWith_slash ''b/''" by code_simp
  have 7: "inited st_retried 1 1 0"
    by (simp add: inited_def st_retried_def st_a_def object_assign_def init_allURLs_def
          init_attempts_def new_object_def store0_def no_fields_def)
  have "\<not> Option.is_none (process_links 2 ?e default_opts ''http://host/a/'' root_a 1
        [(''b/'', Some ''b/'')] [] st_retried)" by code_simp
  then obtain r st' where 8: "process_links 2 ?e default_opts ''http://host/a/'' root_a 1
        [(''b/'', Some ''b/'')] [] st_retried = Some (r, st')"
    by (auto simp: Option.is_none_def)
  have 9: "map_option (\<lambda>(r, st). take 6 (trace st))
      (crawl2 4 ?e default_opts ''http://host/a/'' store0)
     = Some [Invoke ''http://host/a/'' 0 0, Fetch ''http://host/a/'',
             Invoke ''http://host/a/'' 1 0, Fetch ''http://host/a/'',
             Invoke ''http://host/a//b/'' 1 0, Fetch ''http://host/a//b/'']"
    by code_simp
  from child_inherits_attempts[OF 1 2 3 4 5 6 7 8] 8 9 show ?thesis by auto
qed



text \<open>
  Claim C3, as amended. A rejected fetch, of the root or of a subdirectory, never
  reaches the caller: \<open>FAILED_DOWNLOAD\<close> is caught by every call. Every other failure
  reaches the caller of \<open>crawl\<close>, because the handler of \<open>.catch\<close> rethrows it: a body
  that cannot be read rejects the call; whatever the loop over the links of the fetched
  page throws rejects the call with the same error; the loop throws at a link whose
  \<open>href\<close> the URL constructor rejects, and at a followed directory whose crawl is
  rejected, with the error of that crawl. When the directories that can be entered
  are sound (well-formed URLs, readable bodies, links with an \<open>href\<close> that resolves), a
  crawl that returns returns a tree. A malformed root URL makes \<open>crawl\<close> throw before
  any fetch.
\<close>

theorem fetch_failures_absorbed_other_errors_rethrown:
  "(crawl n e os u i st = Some (r, st') \<longrightarrow> r \<noteq> Inl FAILED_DOWNLOAD) \<and>
   (new_URL e u = Some uo \<and> fetch e (requests (trace st)) u = Response s None \<longrightarrow>
      crawl (Suc n) e os u i st = Some (Inl BodyError, entered u i st)) \<and>
   (new_URL e u = Some uo \<and> fetch e (requests (trace st)) u = Response s (Some page) \<and>
    process_links n e os u uo i (getHTMLLinks e page) [] (entered u i st) = Some (Inl err, st1)
      \<longrightarrow> crawl (Suc n) e os u i st = Some (Inl err, st1)) \<and>
   (new_URL_base e (js_string (snd l)) (u @ ''/'') = None \<longrightarrow>
      process_links n e os u uo i (l # links) items st = Some (Inl ERR_INVALID_URL, st)) \<and>
   (new_URL_base e (js_string (snd l)) (u @ ''/'') = Some v \<and>
    url_href v \<notin> set (arrs st (the_allURLs st i)) \<and> follows e os uo l v \<and>
    crawl n e os (url_href v)
      (fst (object_assign i None (push_URL (the_allURLs st i) (url_href v) st)))
      (snd (object_assign i None (push_URL (the_allURLs st i) (url_href v) st)))
    = Some (Inl err, st1)
      \<longrightarrow> process_links n e os u uo i (l # links) items st = Some (Inl err, st1)) \<and>
   (sound_dirs e os D \<and> u \<in> D \<and> i < next_obj st \<and> crawl n e os u i st = Some (r, st')
      \<longrightarrow> (\<exists>t. r = Inr t)) \<and>
   (new_URL e u = None \<longrightarrow>
      (\<exists>st2. crawl (Suc n) e os u i st = Some (Inl ERR_INVALID_URL, st2) \<and>
             requests (trace st2) = requests (trace st)))"
proof (intro conjI impI)
  assume "crawl n e os u i st = Some (r, st')"
  then show "r \<noteq> Inl FAILED_DOWNLOAD" by (rule crawl_never_FAILED_DOWNLOAD)
next
  assume "new_URL e u = Some uo \<and> fetch e (requests (trace st)) u = Response s None"
  then show "crawl (Suc n) e os u i st = Some (Inl BodyError, entered u i st)"
    using crawl_body_error by blast
next
  assume "new_URL e u = Some uo \<and> fetch e (requests (trace st)) u = Response s (Some page) \<and>
    process_links n e os u uo i (getHTMLLinks e page) [] (entered u i st) = Some (Inl err, st1)"
  then show "crawl (Suc n) e os u i st = Some (Inl err, st1)"
    using crawl_rethrows by blast
next
  assume "new_URL_base e (js_string (snd l)) (u @ ''/'') = None"
  then show "process_links n e os u uo i (l # links) items st = Some (Inl ERR_INVALID_URL, st)"
    by (rule process_links_bad_href)
next
  assume "new_URL_base e (js_string (snd l)) (u @ ''/'') = Some v \<and>
    url_href v \<notin> set (arrs st (the_allURLs st i)) \<and> follows e os uo l v \<and>
    crawl n e os (url_href v)
      (fst (object_assign i None (push_URL (the_allURLs st i) (url_href v) st)))
      (snd (object_assign i None (push_URL (the_allURLs st i) (url_href v) st)))
    = Some (Inl err, st1)"
  then show "process_links n e os u uo i (l # links) items st = Some (Inl err, st1)"
    using process_links_child_error by blast
next
  assume a: "sound_dirs e os D \<and> u \<in> D \<and> i < next_obj st \<and>
      crawl n e os u i st = Some (r, st')"
  let ?st1 = "init_allURLs i (init_attempts i st)"
  from a have lt: "i < next_obj st" by blast
  have cr: "crawl n e os u i ?st1 = Some (r, st')" using crawl_init[OF lt] a by simp
  from a crawl_sound[OF _ cr inited_after_init[OF lt]] show "\<exists>t. r = Inr t" by blast
next
  assume "new_URL e u = None"
  then show "\<exists>st2. crawl (Suc n) e os u i st = Some (Inl ERR_INVALID_URL, st2) \<and>
             requests (trace st2) = requests (trace st)"
    by (rule crawl_malformed)
qed

theorem fetch_failures_absorbed_other_errors_rethrown_witness:
  "(\<exists>r st'. crawl 3 env_a default_opts ''http://host/a/'' 0 (snd (new_object store0))
              = Some (r, st') \<and>
            r \<noteq> Inl FAILED_DOWNLOAD \<and> (\<exists>t. r = Inr t)) \<and>
   sound_dirs env_a default_opts dirs_a \<and> ''http://host/a/'' \<in> dirs_a \<and>
   0 < next_obj (snd (new_object store0)) \<and>
   new_URL (node_env srv_no_body parse_a) ''http://host/a/'' = Some root_a \<and>
   fetch (node_env srv_no_body parse_a) (requests (trace (snd (new_object store0))))
     ''http://host/a/'' = Response 200 None \<and>
   crawl (Suc 0) (node_env srv_no_body parse_a) default_opts ''http://host/a/'' 0
     (snd (new_object store0))
     = Some (Inl BodyError, entered ''http://host/a/'' 0 (snd (new_object store0))) \<and>
   new_URL (node_env srv_a parse_broken) ''http://host/a/'' = Some root_a \<and>
   fetch (node_env srv_a parse_broken) (requests (trace (snd (new_object store0))))
     ''http://host/a/'' = Response 200 (Some ''listing of a'') \<and>
   (\<exists>st1. process_links 2 (node_env srv_a parse_broken) default_opts ''http://host/a/'' root_a 0
             (getHTMLLinks (node_env srv_a parse_broken) ''listing of a'') []
             (entered ''http://host/a/'' 0 (snd (new_object store0)))
             = Some (Inl ERR_INVALID_URL, st1) \<and>
          crawl (Suc 2) (node_env srv_a parse_broken) default_opts ''http://host/a/'' 0
             (snd (new_object store0)) = Some (Inl ERR_INVALID_URL, st1)) \<and>
   new_URL_base env_a (js_string (snd (''broken'', Some ''http://''))) (''http://host/a/'' @ ''/'')
     = None \<and>
   process_links 0 env_a default_opts ''http://host/a/'' root_a 0
     [(''broken'', Some ''http://'')] [] st_a = Some (Inl ERR_INVALID_URL, st_a) \<and>
   new_URL_base (node_env srv_a parse_broken_below) (js_string (snd (''b/'', Some ''b/'')))
     (''http://host/a/'' @ ''/'')
     = Some \<lparr>url_href = ''http://host/a//b/'', url_host = ''host'', url_pathname = ''/a//b/''\<rparr> \<and>
   ''http://host/a//b/'' \<notin> set (arrs st_a (the_allURLs st_a 0)) \<and>
   follows (node_env srv_a parse_broken_below) default_opts root_a (''b/'', Some ''b/'')
     \<lparr>url_href = ''http://host/a//b/'', url_host = ''host'', url_pathname = ''/a//b/''\<rparr> \<and>
   (\<exists>st1. crawl 1 (node_env srv_a parse_broken_below) default_opts ''http://host/a//b/''
             (fst (object_assign 0 None (push_URL (the_allURLs st_a 0) ''http://host/a//b/'' st_a)))
             (snd (object_assign 0 None (push_URL (the_allURLs st_a 0) ''http://host/a//b/'' st_a)))
             = Some (Inl ERR_INVALID_URL, st1) \<and>
          process_links 1 (node_env srv_a parse_broken_below) default_opts ''http://host/a/''
             root_a 0 [(''b/'', Some ''b/''), (''c.mp3'', Some ''c.mp3'')] [] st_a
             = Some (Inl ERR_INVALID_URL, st1)) \<and>
   new_URL env_a ''host/a'' = None \<and>
   (\<exists>st2. crawl (Suc 0) env_a default_opts ''host/a'' 0 (snd (new_object store0))
             = Some (Inl ERR_INVALID_URL, st2) \<and>
          requests (trace st2) = requests (trace (snd (new_object store0))))"
proof -
  let ?s0 = "snd (new_object store0)"
  let ?root = "''http://host/a/''"
  let ?nb = "node_env srv_no_body parse_a"
  let ?br = "node_env srv_a parse_broken"
  let ?bb = "node_env srv_a parse_broken_below"
  let ?b = "\<lparr>url_href = ''http://host/a//b/'', url_host = ''host'', url_pathname = ''/a//b/''\<rparr>"
  let ?lb = "(''b/'', Some ''b/'')"
  let ?c = "fst (object_assign 0 None (push_URL (the_allURLs st_a 0) ''http://host/a//b/'' st_a))"
  let ?st2 = "snd (object_assign 0 None (push_URL (the_allURLs st_a 0) ''http://host/a//b/'' st_a))"
  have 1: "''http://host/a/'' \<in> dirs_a" by (simp add: dirs_a_def)
  have 2: "0 < next_obj ?s0" by (simp add: new_object_def store0_def)
  have "\<not> Option.is_none (crawl 3 env_a default_opts ?root 0 ?s0)" by code_simp
  then obtain r st' where 3: "crawl 3 env_a default_opts ?root 0 ?s0 = Some (r, st')"
    by (auto simp: Option.is_none_def)
  have 4: "new_URL ?nb ?root = Some root_a" by code_simp
  have 5: "fetch ?nb (requests (trace ?s0)) ?root = Response 200 None"
    by (simp add: node_env_def srv_no_body_def)
  have 6: "new_URL ?br ?root = Some root_a" by code_simp
  have 7: "fetch ?br (requests (trace ?s0)) ?root = Response 200 (Some ''listing of a'')"
    by (simp add: node_env_def srv_a_def)
  have "map_option fst (process_links 2 ?br default_opts ?root root_a 0
          (getHTMLLinks ?br ''listing of a'') [] (entered ?root 0 ?s0))
        = Some (Inl ERR_INVALID_URL)" by code_simp
  then obtain st1 where 8: "process_links 2 ?br default_opts ?root root_a 0
          (getHTMLLinks ?br ''listing of a'') [] (entered ?root 0 ?s0)
        = Some (Inl ERR_INVALID_URL, st1)" by auto
  have 9: "new_URL_base env_a (js_string (snd (''broken'', Some ''http://''))) (?root @ ''/'')
             = None" by code_simp
  have 10: "new_URL_base ?bb (js_string (snd ?lb)) (?root @ ''/'') = Some ?b" by code_simp
  have 11: "url_href ?b \<notin> set (arrs st_a (the_allURLs st_a 0))" by code_simp
  have 12: "follows ?bb default_opts root_a ?lb ?b" by code_simp
  have "map_option fst (crawl 1 ?bb default_opts (url_href ?b) ?c ?st2)
          = Some (Inl ERR_INVALID_URL)" by code_simp
  then obtain st3 where 13: "crawl 1 ?bb default_opts (url_href ?b)
      (fst (object_assign 0 None (push_URL (the_allURLs st_a 0) (url_href ?b) st_a)))
      (snd (object_assign 0 None (push_URL (the_allURLs st_a 0) (url_href ?b) st_a)))
      = Some (Inl ERR_INVALID_URL, st3)" by auto
  have 14: "new_URL env_a ''host/a'' = None" by code_simp
  note A = fetch_failures_absorbed_other_errors_rethrown
             [of 3 env_a default_opts ?root 0 ?s0 r st' _ _ _ _ _ _ _ _ _ dirs_a]
  note B = fetch_failures_absorbed_other_errors_rethrown
             [of 0 ?nb default_opts ?root 0 ?s0 _ _ root_a 200]
  note C = fetch_failures_absorbed_other_errors_rethrown
             [of 2 ?br default_opts ?root 0 ?s0 _ _ root_a 200 "''listing of a''"
                 ERR_INVALID_URL st1]
  note D = fetch_failures_absorbed_other_errors_rethrown
             [of 0 env_a default_opts ?root 0 st_a _ _ root_a _ _ _ _
                 "(''broken'', Some ''http://'')" "[]" "[]"]
  note E = fetch_failures_absorbed_other_errors_rethrown
             [of 1 ?bb default_opts ?root 0 st_a _ _ root_a _ _ ERR_INVALID_URL st3
                 ?lb "[(''c.mp3'', Some ''c.mp3'')]" "[]" ?b]
  note F = fetch_failures_absorbed_other_errors_rethrown
             [of 0 env_a default_opts "''host/a''" 0 ?s0]
  have a: "r \<noteq> Inl FAILED_DOWNLOAD \<and> (\<exists>t. r = Inr t)"
    using A sound_dirs_a 1 2 3 by blast
  have b: "crawl (Suc 0) ?nb default_opts ?root 0 ?s0 = Some (Inl BodyError, entered ?root 0 ?s0)"
    using B 4 5 by blast
  have c: "crawl (Suc 2) ?br default_opts ?root 0 ?s0 = Some (Inl ERR_INVALID_URL, st1)"
    using C 6 7 8 by blast
  have d: "process_links 0 env_a default_opts ?root root_a 0
     [(''broken'', Some ''http://'')] [] st_a = Some (Inl ERR_INVALID_URL, st_a)"
    using D 9 by blast
  have e: "process_links 1 ?bb default_opts ?root root_a 0
             [?lb, (''c.mp3'', Some ''c.mp3'')] [] st_a = Some (Inl ERR_INVALID_URL, st3)"
    using E 10 11 12 13 by blast
  have f: "\<exists>st2. crawl (Suc 0) env_a default_opts ''host/a'' 0 ?s0
             = Some (Inl ERR_INVALID_URL, st2) \<and>
          requests (trace st2) = requests (trace ?s0)"
    using F 14 by blast
  from 13 have c13: "crawl 1 ?bb default_opts ''http://host/a//b/'' ?c ?st2
      = Some (Inl ERR_INVALID_URL, st3)" by simp
  from 10 11 have c10: "new_URL_base ?bb (js_string (snd ?lb)) (?root @ ''/'') = Some ?b"
    and c11: "''http://host/a//b/'' \<notin> set (arrs st_a (the_allURLs st_a 0))" by simp_all
  have p1: "\<exists>r st'. crawl 3 env_a default_opts ?root 0 ?s0 = Some (r, st') \<and>
            r \<noteq> Inl FAILED_DOWNLOAD \<and> (\<exists>t. r = Inr t)"
    using 3 a by blast
  have p2: "\<exists>st1. process_links 2 ?br default_opts ?root root_a 0
             (getHTMLLinks ?br ''listing of a'') [] (entered ?root 0 ?s0)
             = Some (Inl ERR_INVALID_URL, st1) \<and>
          crawl (Suc 2) ?br default_opts ?root 0 ?s0 = Some (Inl ERR_INVALID_URL, st1)"
    using 8 c by blast
  have p3: "\<exists>st1. crawl 1 ?bb default_opts ''http://host/a//b/'' ?c ?st2
             = Some (Inl ERR_INVALID_URL, st1) \<and>
          process_links 1 ?bb default_opts ?root root_a 0
             [?lb, (''c.mp3'', Some ''c.mp3'')] [] st_a = Some (Inl ERR_INVALID_URL, st1)"
    using c13 e by blast
  show ?thesis
    by (intro conjI) (fact p1 sound_dirs_a 1 2 4 5 b 6 7 p2 9 d c10 c11 12 p3 14 f)+
qed

text \<open>
  The claim as stated fails: the root is fetched with success, its second link has an
  \<open>href\<close> that the URL constructor rejects, and the whole crawl is rejected with that
  error; the entry of the first link is lost.
\<close>

theorem link_error_counterexample:
  "fetch (node_env srv_a parse_broken) [] ''http://host/a/''
     = Response 200 (Some ''listing of a'') \<and>
   map_option (\<lambda>(r, st). (r, requests (trace st)))
     (crawl2 3 (node_env srv_a parse_broken) default_opts ''http://host/a/'' store0)
   = Some (Inl ERR_INVALID_URL, [''http://host/a/''])"
  by code_simp

text \<open>
  Claim C5. The scenario of the specification: the root \<open>http://host/a/\<close> lists \<open>b/\<close>,
  \<open>c.mp3\<close> and \<open>../escape.mp3\<close>, and the result is to be the directory \<open>b\<close> and the
  file \<open>c.mp3\<close> with the reference \<open>http://host/a/c.mp3\<close>, without \<open>../escape.mp3\<close>.
  The code resolves every link against \<open>absURL + '/'\<close>, here \<open>http://host/a//\<close>: the
  reference of \<open>c.mp3\<close> has a doubled slash, and \<open>../escape.mp3\<close> only steps out of the
  empty last segment, resolves to \<open>http://host/a/escape.mp3\<close> inside the directory and
  is kept as a third entry. The result of the claim is what the code returns for the
  root \<open>http://host/a\<close>, written without its final slash.
\<close>

theorem scenario_resolves_against_doubled_slash:
  "map_option fst (crawl2 3 env_a default_opts ''http://host/a/'' store0)
     = Some (Inr (Items [Dir ''b'' (Some [File ''d.mp3'' ''http://host/a//b//d.mp3'']),
                         File ''c.mp3'' ''http://host/a//c.mp3'',
                         File ''../escape.mp3'' ''http://host/a/escape.mp3''])) \<and>
   map_option url_href (new_URL_base env_a ''c.mp3'' (''http://host/a/'' @ ''/''))
     = Some ''http://host/a//c.mp3'' \<and>
   map_option url_href (new_URL_base env_a ''../escape.mp3'' (''http://host/a/'' @ ''/''))
     = Some ''http://host/a/escape.mp3'' \<and>
   path_relative env_a ''/a/'' ''/a/escape.mp3'' = ''escape.mp3'' \<and>
   map_option fst (crawl2 3 env_a default_opts ''http://host/a'' store0)
     = Some (Inr (Items [Dir ''b'' (Some [File ''d.mp3'' ''http://host/a/b//d.mp3'']),
                         File ''c.mp3'' ''http://host/a/c.mp3'']))"
  by code_simp

text \<open>
  Claim C8. The link extractor is to return, for every \<open>a\<close> element, its text and its
  \<open>href\<close> or the empty string. The code returns \<open>$el.attr('href')\<close> as it is, which is
  \<open>undefined\<close> for an element without that attribute, and \<open>crawl\<close> then throws at
  \<open>href.endsWith\<close>: one named anchor in a listing rejects the whole crawl.
\<close>

theorem missing_href_is_undefined:
  "getHTMLLinks (node_env srv_a parse_named) ''listing of a''
     = [(''Top'', None), (''c.mp3'', Some ''c.mp3'')] \<and>
   getHTMLLinks (node_env srv_a parse_named) ''listing of a''
     \<noteq> map spec_link (cheerio_a (node_env srv_a parse_named) ''listing of a'') \<and>
   map_option (\<lambda>(r, st). (r, requests (trace st)))
     (crawl2 3 (node_env srv_a parse_named) default_opts ''http://host/a/'' store0)
   = Some (Inl TypeError_undefined, [''http://host/a/''])"
  by code_simp

text \<open>
  Claim C7, as amended. Nothing in the code bounds the depth of the recursion; what
  stops a crawl is that a URL is followed once. Let \<open>D\<close> be a finite set of URLs that
  holds the root and is closed: whatever page the server answers with for a URL of
  \<open>D\<close>, every link of that page that the loop follows (it passes the filters and its
  \<open>href\<close> ends in a slash) resolves to a URL of \<open>D\<close>. Then the crawl completes: a
  nesting depth of \<open>card D + maxAttempts + 1\<close> calls is enough, whatever the server
  answers and however often it fails. Links that are recorded and not followed, and
  the pages behind them, play no part.
\<close>

theorem crawl_terminates_on_finite_closed_dirs:
  assumes "finite D" and "closed_dirs e os D" and "u \<in> D" and "i < next_obj st"
    and "card D + maxAttempts os < n"
  shows "\<exists>r st'. crawl n e os u i st = Some (r, st')"
proof -
  let ?st1 = "init_allURLs i (init_attempts i st)"
  let ?k = "the_attempts ?st1 i"
  let ?a = "the_allURLs ?st1 i"
  have ini: "inited ?st1 i ?k ?a" using inited_after_init[OF assms(4)] .
  have "card (D - set (arrs ?st1 ?a)) \<le> card D" using assms(1) by (intro card_mono) auto
  then have "card (D - set (arrs ?st1 ?a)) + (maxAttempts os - ?k) < n"
    using assms(5) by simp
  from crawl_terminates[OF assms(1,2,3) ini this] have "crawl n e os u i ?st1 \<noteq> None" .
  then have "crawl n e os u i st \<noteq> None" using crawl_init[OF assms(4)] by simp
  then show ?thesis by auto
qed

theorem crawl_terminates_on_finite_closed_dirs_witness:
  "finite dirs_a \<and> closed_dirs env_a default_opts dirs_a \<and> ''http://host/a/'' \<in> dirs_a \<and>
   0 < next_obj (snd (new_object store0)) \<and> card dirs_a + maxAttempts default_opts < 8 \<and>
   (\<exists>r st'. crawl 8 env_a default_opts ''http://host/a/'' 0 (snd (new_object store0))
              = Some (r, st')) \<and>
   finite {''http://host/a/''} \<and> closed_dirs env_up default_opts {''http://host/a/''} \<and>
   card {''http://host/a/''} + maxAttempts default_opts < 7 \<and>
   (\<exists>r st'. crawl 7 env_up default_opts ''http://host/a/'' 0 (snd (new_object store0))
              = Some (r, st'))"
proof -
  have 1: "finite dirs_a" by (simp add: dirs_a_def)
  have 3: "''http://host/a/'' \<in> dirs_a" by (simp add: dirs_a_def)
  have 4: "0 < next_obj (snd (new_object store0))" by (simp add: new_object_def store0_def)
  have 5: "card dirs_a + maxAttempts default_opts < 8"
    by (simp add: dirs_a_def default_opts_def)
  have 6: "finite {''http://host/a/''}" by simp
  have 7: "''http://host/a/'' \<in> {''http://host/a/''}" by simp
  have 8: "card {''http://host/a/''} + maxAttempts default_opts < 7"
    by (simp add: default_opts_def)
  from crawl_terminates_on_finite_closed_dirs[OF 1 closed_dirs_a 3 4 5]
       crawl_terminates_on_finite_closed_dirs[OF 6 closed_dirs_up 7 4 8]
       1 closed_dirs_a 3 4 5 6 closed_dirs_up 8
  show ?thesis by blast
qed

text \<open>
  The claim as stated fails on a server with a single resource: a listing whose link
  \<open>a/\<close> leads to the same listing (a directory that holds a link to itself). Every
  link resolves to a longer URL, \<open>http://host//a/\<close>, \<open>http://host//a//a/\<close> and so on,
  none of which was seen before, and no nesting depth is enough for the crawl of
  \<open>http://host/\<close> with the default options to return.
\<close>

theorem self_link_counterexample:
  "\<forall>n. crawl2 n env_loop default_opts ''http://host/'' store0 = None"
proof
  fix n
  obtain i st1 where no: "new_object store0 = (i, st1)" by (cases "new_object store0")
  let ?st2 = "init_allURLs i (init_attempts i st1)"
  have lt: "i < next_obj st1" using no by (auto simp: new_object_def)
  have ini: "inited ?st2 i 0 (next_arr store0)" using inited_new_object[OF no] .
  have emp: "arrs ?st2 (next_arr store0) = []"
    using no by (auto simp: new_object_def store0_def no_fields_def init_attempts_def init_allURLs_def)
  have pl: "plain [[]]" by (simp add: plain_def)
  have u: "host_url [[]] = ''http://host/''" by (simp add: host_url_def)
  have "crawl n env_loop default_opts (host_url [[]]) i ?st2 = None"
    by (rule loop_diverges[OF pl ini]) (simp add: emp)
  then show "crawl2 n env_loop default_opts ''http://host/'' store0 = None"
    using crawl_init[OF lt] no u by (simp add: crawl2_def)
qed

end
